theory Spec2Isabelle
  imports Complex_Main "HOL-Library.Monad_Syntax"
begin

section \<open>Arrays, indexing and loops\<close>

text \<open>
  Every field of the solver is a flat \<open>Float32Array\<close> of length \<open>N * N\<close>. The model stores
  exact real numbers in a list: a cell of the state is a finite number, and rounding to
  32-bit floats is not modelled. A result of type \<open>option\<close> is \<open>None\<close> as soon as the
  JavaScript computation would leave the real numbers: a read outside the array (JavaScript
  yields \<open>undefined\<close>, which is NaN in arithmetic) or a division by zero. Where the numbers
  decide which cells are read, in \<open>advect\<close>, they are JavaScript numbers with their
  infinities and NaN.
\<close>

type_synonym field = "real list"

text \<open>\<open>IX(x, y) = Math.floor(x) + Math.floor(y) * N\<close>.\<close>

definition IX :: "int \<Rightarrow> real \<Rightarrow> real \<Rightarrow> int" where
  "IX N x y = \<lfloor>x\<rfloor> + \<lfloor>y\<rfloor> * N"

text \<open>A read \<open>a[k]\<close>: defined inside the array only.\<close>

definition rd :: "'a list \<Rightarrow> int \<Rightarrow> 'a option" where
  "rd a k = (if 0 \<le> k \<and> k < int (length a) then Some (a ! nat k) else None)"

text \<open>A write \<open>a[k] = v\<close>: a typed array silently drops a write outside its range.\<close>

definition wr :: "'a list \<Rightarrow> int \<Rightarrow> 'a \<Rightarrow> 'a list" where
  "wr a k w = (if 0 \<le> k \<and> k < int (length a) then a[nat k := w] else a)"

text \<open>A division whose denominator is not a constant.\<close>

definition fdiv :: "real \<Rightarrow> real \<Rightarrow> real option" where
  "fdiv x y = (if y = 0 then None else Some (x / y))"

text \<open>
  A counting loop \<open>for (let i = lo; i < hi; i++) body\<close> over integers runs its body on
  \<open>[lo..hi - 1]\<close> in order, and stops with \<open>None\<close> where the body does.
\<close>

fun forM :: "'i list \<Rightarrow> ('i \<Rightarrow> 's \<Rightarrow> 's option) \<Rightarrow> 's \<Rightarrow> 's option" where
  "forM [] body s = Some s"
| "forM (i # is) body s = (case body i s of None \<Rightarrow> None | Some s' \<Rightarrow> forM is body s')"

text \<open>
  The double loop \<open>for (j = 1; j < N - 1; j++) for (i = 1; i < N - 1; i++)\<close> over the
  interior cells, shared by all kernels.
\<close>

definition for_interior :: "int \<Rightarrow> (int \<Rightarrow> int \<Rightarrow> 's \<Rightarrow> 's option) \<Rightarrow> 's \<Rightarrow> 's option" where
  "for_interior N body s = forM [1..N - 2] (\<lambda>j. forM [1..N - 2] (\<lambda>i. body j i)) s"

text \<open>The value stored for the grid cell \<open>(i, j)\<close>, and the integer form of \<open>IX\<close>.\<close>

definition ix :: "int \<Rightarrow> int \<Rightarrow> int \<Rightarrow> int" where
  "ix N i j = i + j * N"

definition cell :: "int \<Rightarrow> 'a list \<Rightarrow> int \<Rightarrow> int \<Rightarrow> 'a" where
  "cell N x i j = x ! nat (IX N (real_of_int i) (real_of_int j))"

definition sized :: "int \<Rightarrow> 'a list \<Rightarrow> bool" where
  "sized N x \<longleftrightarrow> int (length x) = N * N"

definition inner :: "int \<Rightarrow> int \<Rightarrow> int \<Rightarrow> bool" where
  "inner N i j \<longleftrightarrow> 1 \<le> i \<and> i \<le> N - 2 \<and> 1 \<le> j \<and> j \<le> N - 2"

section \<open>The kernels\<close>

subsection \<open>setBoundary\<close>

definition setBoundary_vertical :: "int \<Rightarrow> int \<Rightarrow> int \<Rightarrow> field \<Rightarrow> field option" where
  "setBoundary_vertical N b j x = do {
     l \<leftarrow> rd x (IX N 1 j);
     let x = wr x (IX N 0 j) (if b = 1 then - l else l);
     r \<leftarrow> rd x (IX N (N - 2) j);
     Some (wr x (IX N (N - 1) j) (if b = 1 then - r else r))
   }"

definition setBoundary_horizontal :: "int \<Rightarrow> int \<Rightarrow> int \<Rightarrow> field \<Rightarrow> field option" where
  "setBoundary_horizontal N b i x = do {
     t \<leftarrow> rd x (IX N i 1);
     let x = wr x (IX N i 0) (if b = 2 then - t else t);
     m \<leftarrow> rd x (IX N i (N - 2));
     Some (wr x (IX N i (N - 1)) (if b = 2 then - m else m))
   }"

definition setBoundary_corners :: "int \<Rightarrow> field \<Rightarrow> field option" where
  "setBoundary_corners N x = do {
     a \<leftarrow> rd x (IX N 1 0);
     c \<leftarrow> rd x (IX N 0 1);
     let x = wr x (IX N 0 0) (0.5 * (a + c));
     a \<leftarrow> rd x (IX N 1 (N - 1));
     c \<leftarrow> rd x (IX N 0 (N - 2));
     let x = wr x (IX N 0 (N - 1)) (0.5 * (a + c));
     a \<leftarrow> rd x (IX N (N - 2) 0);
     c \<leftarrow> rd x (IX N (N - 1) 1);
     let x = wr x (IX N (N - 1) 0) (0.5 * (a + c));
     a \<leftarrow> rd x (IX N (N - 2) (N - 1));
     c \<leftarrow> rd x (IX N (N - 1) (N - 2));
     Some (wr x (IX N (N - 1) (N - 1)) (0.5 * (a + c)))
   }"

definition setBoundary :: "int \<Rightarrow> int \<Rightarrow> field \<Rightarrow> field option" where
  "setBoundary N b x = do {
     x \<leftarrow> forM [1..N - 2] (setBoundary_vertical N b) x;
     x \<leftarrow> forM [1..N - 2] (setBoundary_horizontal N b) x;
     setBoundary_corners N x
   }"

subsection \<open>diffuse\<close>

definition diffuse_cell :: "int \<Rightarrow> real \<Rightarrow> field \<Rightarrow> int \<Rightarrow> int \<Rightarrow> field \<Rightarrow> field option" where
  "diffuse_cell N a x0 j i x = do {
     c \<leftarrow> rd x0 (IX N i j);
     e \<leftarrow> rd x (IX N (i + 1) j);
     w \<leftarrow> rd x (IX N (i - 1) j);
     s \<leftarrow> rd x (IX N i (j + 1));
     n \<leftarrow> rd x (IX N i (j - 1));
     q \<leftarrow> fdiv (c + a * (e + w + s + n)) (1 + 4 * a);
     Some (wr x (IX N i j) q)
   }"

definition diffuse_sweep :: "int \<Rightarrow> int \<Rightarrow> real \<Rightarrow> field \<Rightarrow> field \<Rightarrow> field option" where
  "diffuse_sweep N b a x0 x = do {
     x \<leftarrow> for_interior N (diffuse_cell N a x0) x;
     setBoundary N b x
   }"

definition diffuse :: "int \<Rightarrow> int \<Rightarrow> int \<Rightarrow> field \<Rightarrow> field \<Rightarrow> real \<Rightarrow> real \<Rightarrow> field option" where
  "diffuse N iterations b x x0 diffusion dt =
     (let a = dt * diffusion * (N - 2) * (N - 2)
      in forM [0..iterations - 1] (\<lambda>k. diffuse_sweep N b a x0) x)"

subsection \<open>project\<close>

text \<open>The discrete divergence that \<open>project\<close> stores for the interior cell \<open>(i, j)\<close>.\<close>

definition divergence_cell :: "int \<Rightarrow> field \<Rightarrow> field \<Rightarrow> int \<Rightarrow> int \<Rightarrow> real option" where
  "divergence_cell N velocX velocY j i = do {
     e \<leftarrow> rd velocX (IX N (i + 1) j);
     w \<leftarrow> rd velocX (IX N (i - 1) j);
     s \<leftarrow> rd velocY (IX N i (j + 1));
     n \<leftarrow> rd velocY (IX N i (j - 1));
     fdiv (- 0.5 * (e - w + s - n)) N
   }"

definition project_init_cell ::
  "int \<Rightarrow> field \<Rightarrow> field \<Rightarrow> int \<Rightarrow> int \<Rightarrow> field \<times> field \<Rightarrow> (field \<times> field) option" where
  "project_init_cell N velocX velocY j i = (\<lambda>(p, dv). do {
     q \<leftarrow> divergence_cell N velocX velocY j i;
     Some (wr p (IX N i j) 0, wr dv (IX N i j) q)
   })"

definition project_relax_cell :: "int \<Rightarrow> field \<Rightarrow> int \<Rightarrow> int \<Rightarrow> field \<Rightarrow> field option" where
  "project_relax_cell N dv j i p = do {
     c \<leftarrow> rd dv (IX N i j);
     e \<leftarrow> rd p (IX N (i + 1) j);
     w \<leftarrow> rd p (IX N (i - 1) j);
     s \<leftarrow> rd p (IX N i (j + 1));
     n \<leftarrow> rd p (IX N i (j - 1));
     Some (wr p (IX N i j) ((c + e + w + s + n) / 4))
   }"

definition project_relax :: "int \<Rightarrow> field \<Rightarrow> field \<Rightarrow> field option" where
  "project_relax N dv p = do {
     p \<leftarrow> for_interior N (project_relax_cell N dv) p;
     setBoundary N 0 p
   }"

definition project_gradient_cell ::
  "int \<Rightarrow> field \<Rightarrow> int \<Rightarrow> int \<Rightarrow> field \<times> field \<Rightarrow> (field \<times> field) option" where
  "project_gradient_cell N p j i = (\<lambda>(velocX, velocY). do {
     e \<leftarrow> rd p (IX N (i + 1) j);
     w \<leftarrow> rd p (IX N (i - 1) j);
     cx \<leftarrow> rd velocX (IX N i j);
     let velocX = wr velocX (IX N i j) (cx - 0.5 * (e - w) * N);
     s \<leftarrow> rd p (IX N i (j + 1));
     n \<leftarrow> rd p (IX N i (j - 1));
     cy \<leftarrow> rd velocY (IX N i j);
     Some (velocX, wr velocY (IX N i j) (cy - 0.5 * (s - n) * N))
   })"

text \<open>\<open>project\<close> returns its four arrays: \<open>(velocX, velocY, p, div)\<close>.\<close>

definition project ::
  "int \<Rightarrow> int \<Rightarrow> field \<Rightarrow> field \<Rightarrow> field \<Rightarrow> field \<Rightarrow> (field \<times> field \<times> field \<times> field) option" where
  "project N iterations velocX velocY p dv = do {
     (p, dv) \<leftarrow> for_interior N (project_init_cell N velocX velocY) (p, dv);
     dv \<leftarrow> setBoundary N 0 dv;
     p \<leftarrow> setBoundary N 0 p;
     p \<leftarrow> forM [0..iterations - 1] (\<lambda>k. project_relax N dv) p;
     (velocX, velocY) \<leftarrow> for_interior N (project_gradient_cell N p) (velocX, velocY);
     velocX \<leftarrow> setBoundary N 1 velocX;
     velocY \<leftarrow> setBoundary N 2 velocY;
     Some (velocX, velocY, p, dv)
   }"

subsection \<open>advect\<close>

text \<open>
  The position that \<open>advect\<close> samples is computed from \<open>dt\<close> and a velocity cell, which are
  JavaScript numbers: a finite number, one of the two infinities, or NaN. The arithmetic on
  them is that of IEEE doubles, except that a finite result is not rounded: it is kept
  exactly while its magnitude stays below \<open>2^1024 - 2^970\<close>, and becomes an infinity from
  there on, as a rounded double does.
\<close>

datatype jsnum = Fin real | PInf | NInf | NaN

definition overflow_bound :: real where
  "overflow_bound = 2 ^ 1024 - 2 ^ 970"

definition js_result :: "real \<Rightarrow> jsnum" where
  "js_result x = (if \<bar>x\<bar> < overflow_bound then Fin x else if 0 < x then PInf else NInf)"

text \<open>The product \<open>x * y\<close>.\<close>

fun js_times :: "jsnum \<Rightarrow> jsnum \<Rightarrow> jsnum" where
  "js_times NaN y = NaN"
| "js_times x NaN = NaN"
| "js_times (Fin a) (Fin b) = js_result (a * b)"
| "js_times (Fin a) PInf = (if a = 0 then NaN else if 0 < a then PInf else NInf)"
| "js_times (Fin a) NInf = (if a = 0 then NaN else if 0 < a then NInf else PInf)"
| "js_times PInf (Fin b) = (if b = 0 then NaN else if 0 < b then PInf else NInf)"
| "js_times NInf (Fin b) = (if b = 0 then NaN else if 0 < b then NInf else PInf)"
| "js_times PInf PInf = PInf"
| "js_times PInf NInf = NInf"
| "js_times NInf PInf = NInf"
| "js_times NInf NInf = PInf"

text \<open>The difference \<open>x - y\<close>.\<close>

fun js_minus :: "jsnum \<Rightarrow> jsnum \<Rightarrow> jsnum" where
  "js_minus NaN y = NaN"
| "js_minus x NaN = NaN"
| "js_minus (Fin a) (Fin b) = js_result (a - b)"
| "js_minus (Fin a) PInf = NInf"
| "js_minus (Fin a) NInf = PInf"
| "js_minus PInf PInf = NaN"
| "js_minus PInf y = PInf"
| "js_minus NInf NInf = NaN"
| "js_minus NInf y = NInf"

text \<open>The comparison \<open>x < y\<close>: false as soon as one side is NaN.\<close>

fun js_less :: "jsnum \<Rightarrow> jsnum \<Rightarrow> bool" where
  "js_less NaN y = False"
| "js_less x NaN = False"
| "js_less (Fin a) (Fin b) = (a < b)"
| "js_less (Fin a) PInf = True"
| "js_less (Fin a) NInf = False"
| "js_less PInf y = False"
| "js_less NInf NInf = False"
| "js_less NInf y = True"

text \<open>The backtraced coordinate \<open>i - dt * N * velocX[IX(i, j)]\<close>.\<close>

definition backtrace :: "int \<Rightarrow> jsnum \<Rightarrow> int \<Rightarrow> jsnum \<Rightarrow> jsnum" where
  "backtrace N dt k vel = js_minus (Fin k) (js_times (js_times dt (Fin N)) vel)"

text \<open>
  The two clamping statements \<open>if (x < 0.5) x = 0.5; if (x > N - 1.5) x = N - 1.5;\<close> applied
  to a backtraced coordinate.
\<close>

definition clamp_coord :: "int \<Rightarrow> jsnum \<Rightarrow> jsnum" where
  "clamp_coord N x =
     (let x = (if js_less x (Fin 0.5) then Fin 0.5 else x)
      in if js_less (Fin (N - 1.5)) x then Fin (N - 1.5) else x)"

text \<open>
  The bilinear sample of \<open>d0\<close> at the clamped position \<open>(x, y)\<close>. After the clamping
  statements a coordinate is finite or NaN. For NaN, \<open>Math.floor\<close> gives NaN, so does \<open>IX\<close>,
  and \<open>d0[NaN]\<close> is a read outside the array.
\<close>

fun advect_sample :: "int \<Rightarrow> field \<Rightarrow> jsnum \<Rightarrow> jsnum \<Rightarrow> real option" where
  "advect_sample N d0 (Fin x) (Fin y) = do {
     let i0 = \<lfloor>x\<rfloor>;
     let i1 = i0 + 1;
     let j0 = \<lfloor>y\<rfloor>;
     let j1 = j0 + 1;
     let s1 = x - i0;
     let s0 = 1 - s1;
     let t1 = y - j0;
     let t0 = 1 - t1;
     a \<leftarrow> rd d0 (IX N i0 j0);
     b \<leftarrow> rd d0 (IX N i0 j1);
     c \<leftarrow> rd d0 (IX N i1 j0);
     e \<leftarrow> rd d0 (IX N i1 j1);
     Some (s0 * (t0 * a + t1 * b) + s1 * (t0 * c + t1 * e))
   }"
| "advect_sample N d0 x y = None"

definition advect_cell ::
  "int \<Rightarrow> field \<Rightarrow> jsnum list \<Rightarrow> jsnum list \<Rightarrow> jsnum \<Rightarrow> int \<Rightarrow> int \<Rightarrow> field \<Rightarrow> field option" where
  "advect_cell N d0 velocX velocY dt j i d = do {
     vx \<leftarrow> rd velocX (IX N i j);
     vy \<leftarrow> rd velocY (IX N i j);
     let x = clamp_coord N (backtrace N dt i vx);
     let y = clamp_coord N (backtrace N dt j vy);
     q \<leftarrow> advect_sample N d0 x y;
     Some (wr d (IX N i j) q)
   }"

text \<open>
  The arrays \<open>d\<close> and \<open>d0\<close> hold finite numbers; \<open>velocX\<close>, \<open>velocY\<close> and \<open>dt\<close> are taken as
  JavaScript numbers. The steps below pass the finite cells of their state and their finite
  \<open>dt\<close>.
\<close>

definition advect ::
  "int \<Rightarrow> int \<Rightarrow> field \<Rightarrow> field \<Rightarrow> jsnum list \<Rightarrow> jsnum list \<Rightarrow> jsnum \<Rightarrow> field option" where
  "advect N b d d0 velocX velocY dt = do {
     d \<leftarrow> for_interior N (advect_cell N d0 velocX velocY dt) d;
     setBoundary N b d
   }"

section \<open>The simulation object\<close>

text \<open>
  The tunable-parameter variant keeps its configuration in \<open>this.params\<close>; the fields
  that only drive the rendering (colours, opacities, \<open>showVelocity\<close>) are left out.
\<close>

record params =
  dt :: real
  diffusion :: real
  viscosity :: real
  iterations :: int
  densityDissipation :: real
  velocityDissipation :: real
  forceMultiplier :: real
  forceRadius :: real

record fluid =
  sizeN :: int
  params :: params
  u :: field
  v :: field
  u_prev :: field
  v_prev :: field
  density :: field
  density_prev :: field

subsection \<open>constructor and reset\<close>







subsection \<open>addForce\<close>

text \<open>
  The loops of \<open>addForce\<close> count in steps of one from \<open>-radius\<close> while the counter is at
  most \<open>radius\<close>; the counter is a real number, as the radius is.
\<close>

function for_real :: "real \<Rightarrow> real \<Rightarrow> (real \<Rightarrow> 's \<Rightarrow> 's option) \<Rightarrow> 's \<Rightarrow> 's option" where
  "for_real i hi body s =
     (if i \<le> hi
      then (case body i s of None \<Rightarrow> None | Some s' \<Rightarrow> for_real (i + 1) hi body s')
      else Some s)"
  by pat_completeness auto
termination
proof (relation "measure (\<lambda>(i, hi, body, s). nat (\<lfloor>hi - i\<rfloor> + 1))")
  show "wf (measure (\<lambda>(i, hi, body, s). nat (\<lfloor>hi - i\<rfloor> + 1)))" by simp
next
  fix i hi :: real and body :: "real \<Rightarrow> 's \<Rightarrow> 's option" and s x2 :: 's
  assume "i \<le> hi"
  then have "0 \<le> \<lfloor>hi - i\<rfloor>" by simp
  moreover have "hi - (i + 1) = (hi - i) - 1" by simp
  then have "\<lfloor>hi - (i + 1)\<rfloor> = \<lfloor>hi - i\<rfloor> - 1" by (simp only: floor_diff_one)
  ultimately show "((i + 1, hi, body, x2), (i, hi, body, s))
      \<in> measure (\<lambda>(i, hi, body, s). nat (\<lfloor>hi - i\<rfloor> + 1))"
    by simp
qed

definition addForce_cell ::
  "int \<Rightarrow> real \<Rightarrow> int \<Rightarrow> int \<Rightarrow> real \<Rightarrow> real \<Rightarrow> real \<Rightarrow> real \<Rightarrow> fluid \<Rightarrow> fluid option" where
  "addForce_cell N radius gridX gridY amountX amountY i j s =
     (let d = sqrt (i * i + j * j) in
      if d > radius then Some s
      else do {
        q \<leftarrow> fdiv d radius;
        let influence = 1 - q;
        let px = min (N - 1) (max 0 (gridX + i));
        let py = min (N - 1) (max 0 (gridY + j));
        let idx = IX N px py;
        a \<leftarrow> rd (u s) idx;
        let s = s\<lparr>u := wr (u s) idx (a + amountX * influence)\<rparr>;
        c \<leftarrow> rd (v s) idx;
        let s = s\<lparr>v := wr (v s) idx (c + amountY * influence)\<rparr>;
        e \<leftarrow> rd (density s) idx;
        Some (s\<lparr>density := wr (density s) idx (e + 100 * influence)\<rparr>)
      })"

text \<open>
  \<open>window.innerWidth\<close> and \<open>window.innerHeight\<close> belong to the host: they are the first
  two arguments.
\<close>

definition addForce :: "real \<Rightarrow> real \<Rightarrow> real \<Rightarrow> real \<Rightarrow> real \<Rightarrow> real \<Rightarrow> fluid \<Rightarrow> fluid option" where
  "addForce innerWidth innerHeight x y amountX amountY s = do {
     let N = sizeN s;
     qx \<leftarrow> fdiv (x + innerWidth / 2) innerWidth;
     let gridX = \<lfloor>qx * real_of_int N\<rfloor>;
     qy \<leftarrow> fdiv (y + innerHeight / 2) innerHeight;
     let gridY = \<lfloor>qy * real_of_int N\<rfloor>;
     let amountX = amountX * forceMultiplier (params s);
     let amountY = amountY * forceMultiplier (params s);
     let radius = forceRadius (params s);
     for_real (- radius) radius (\<lambda>i.
       for_real (- radius) radius (\<lambda>j.
         addForce_cell N radius gridX gridY amountX amountY i j)) s
   }"

subsection \<open>velocityStep, densityStep and update\<close>

definition velocityStep_dissipate :: "real \<Rightarrow> int \<Rightarrow> fluid \<Rightarrow> fluid option" where
  "velocityStep_dissipate dissipation i s = do {
     a \<leftarrow> rd (u s) i;
     let s = s\<lparr>u := wr (u s) i (a * dissipation)\<rparr>;
     c \<leftarrow> rd (v s) i;
     Some (s\<lparr>v := wr (v s) i (c * dissipation)\<rparr>)
   }"

definition velocityStep :: "fluid \<Rightarrow> fluid option" where
  "velocityStep s = do {
     let N = sizeN s;
     let visc = viscosity (params s);
     let dt' = dt (params s);
     let iters = iterations (params s);
     x \<leftarrow> diffuse N iters 1 (u_prev s) (u s) visc dt';
     let s = s\<lparr>u_prev := x\<rparr>;
     x \<leftarrow> diffuse N iters 2 (v_prev s) (v s) visc dt';
     let s = s\<lparr>v_prev := x\<rparr>;
     (velocX, velocY, p, dv) \<leftarrow> project N iters (u_prev s) (v_prev s) (u s) (v s);
     let s = s\<lparr>u_prev := velocX, v_prev := velocY, u := p, v := dv\<rparr>;
     d \<leftarrow> advect N 1 (u s) (u_prev s) (map Fin (u_prev s)) (map Fin (v_prev s)) (Fin dt');
     let s = s\<lparr>u := d\<rparr>;
     d \<leftarrow> advect N 2 (v s) (v_prev s) (map Fin (u_prev s)) (map Fin (v_prev s)) (Fin dt');
     let s = s\<lparr>v := d\<rparr>;
     (velocX, velocY, p, dv) \<leftarrow> project N iters (u s) (v s) (u_prev s) (v_prev s);
     let s = s\<lparr>u := velocX, v := velocY, u_prev := p, v_prev := dv\<rparr>;
     let dissipation = velocityDissipation (params s);
     forM [0..N * N - 1] (velocityStep_dissipate dissipation) s
   }"

definition densityStep_dissipate :: "real \<Rightarrow> int \<Rightarrow> field \<Rightarrow> field option" where
  "densityStep_dissipate dissipation i den = do {
     a \<leftarrow> rd den i;
     Some (wr den i (a * dissipation))
   }"

definition densityStep :: "fluid \<Rightarrow> fluid option" where
  "densityStep s = do {
     let N = sizeN s;
     let diff = diffusion (params s);
     let dt' = dt (params s);
     let iters = iterations (params s);
     x \<leftarrow> diffuse N iters 0 (density_prev s) (density s) diff dt';
     let s = s\<lparr>density_prev := x\<rparr>;
     d \<leftarrow> advect N 0 (density s) (density_prev s) (map Fin (u s)) (map Fin (v s)) (Fin dt');
     let s = s\<lparr>density := d\<rparr>;
     let dissipation = densityDissipation (params s);
     den \<leftarrow> forM [0..N * N - 1] (densityStep_dissipate dissipation) (density s);
     Some (s\<lparr>density := den\<rparr>)
   }"

text \<open>\<open>update\<close> is the per-tick step; the texture refresh that follows is rendering.\<close>

definition update :: "fluid \<Rightarrow> fluid option" where
  "update s = do { s \<leftarrow> velocityStep s; densityStep s }"

section \<open>The fixed-dissipation variant\<close>

text \<open>
  \<open>js/fluidSimulation.js\<close> keeps \<open>dt\<close>, \<open>diffusion\<close>, \<open>viscosity\<close> and \<open>iterations\<close> as
  fields of the object itself. Its kernels \<open>diffuse\<close>, \<open>project\<close>, \<open>advect\<close> and
  \<open>setBoundary\<close> are those above, reading \<open>this.iterations\<close> for the iteration count. The
  names of its fields carry the suffix \<open>F\<close>.
\<close>

record fluidF =
  sizeF :: int
  dtF :: real
  diffusionF :: real
  viscosityF :: real
  iterationsF :: int
  uF :: field
  vF :: field
  u_prevF :: field
  v_prevF :: field
  densityF :: field
  density_prevF :: field

definition velocityStepF :: "fluidF \<Rightarrow> fluidF option" where
  "velocityStepF s = do {
     let N = sizeF s;
     let visc = viscosityF s;
     let dt' = dtF s;
     x \<leftarrow> diffuse N (iterationsF s) 1 (u_prevF s) (uF s) visc dt';
     let s = s\<lparr>u_prevF := x\<rparr>;
     x \<leftarrow> diffuse N (iterationsF s) 2 (v_prevF s) (vF s) visc dt';
     let s = s\<lparr>v_prevF := x\<rparr>;
     (velocX, velocY, p, dv) \<leftarrow> project N (iterationsF s) (u_prevF s) (v_prevF s) (uF s) (vF s);
     let s = s\<lparr>u_prevF := velocX, v_prevF := velocY, uF := p, vF := dv\<rparr>;
     d \<leftarrow> advect N 1 (uF s) (u_prevF s) (map Fin (u_prevF s)) (map Fin (v_prevF s)) (Fin dt');
     let s = s\<lparr>uF := d\<rparr>;
     d \<leftarrow> advect N 2 (vF s) (v_prevF s) (map Fin (u_prevF s)) (map Fin (v_prevF s)) (Fin dt');
     let s = s\<lparr>vF := d\<rparr>;
     (velocX, velocY, p, dv) \<leftarrow> project N (iterationsF s) (uF s) (vF s) (u_prevF s) (v_prevF s);
     Some (s\<lparr>uF := velocX, vF := velocY, u_prevF := p, v_prevF := dv\<rparr>)
   }"

definition densityStepF :: "fluidF \<Rightarrow> fluidF option" where
  "densityStepF s = do {
     let N = sizeF s;
     let diff = diffusionF s;
     let dt' = dtF s;
     x \<leftarrow> diffuse N (iterationsF s) 0 (density_prevF s) (densityF s) diff dt';
     let s = s\<lparr>density_prevF := x\<rparr>;
     d \<leftarrow> advect N 0 (densityF s) (density_prevF s) (map Fin (uF s)) (map Fin (vF s)) (Fin dt');
     let s = s\<lparr>densityF := d\<rparr>;
     den \<leftarrow> forM [0..N * N - 1] (densityStep_dissipate 0.99) (densityF s);
     Some (s\<lparr>densityF := den\<rparr>)
   }"

definition updateF :: "fluidF \<Rightarrow> fluidF option" where
  "updateF s = do { s \<leftarrow> velocityStepF s; densityStepF s }"

section \<open>Notions used in the statements and proofs\<close>

definition inb :: "int \<Rightarrow> int \<Rightarrow> int \<Rightarrow> bool" where
  "inb N i j \<longleftrightarrow> 0 \<le> i \<and> i < N \<and> 0 \<le> j \<and> j < N"

definition sgn_b :: "bool \<Rightarrow> real \<Rightarrow> real" where
  "sgn_b flip w = (if flip then - w else w)"

definition edge_value :: "int \<Rightarrow> int \<Rightarrow> field \<Rightarrow> int \<Rightarrow> int \<Rightarrow> real" where
  "edge_value N b x i j =
     (if i = 0 then sgn_b (b = 1) (cell N x 1 j)
      else if i = N - 1 then sgn_b (b = 1) (cell N x (N - 2) j)
      else if j = 0 then sgn_b (b = 2) (cell N x i 1)
      else if j = N - 1 then sgn_b (b = 2) (cell N x i (N - 2))
      else cell N x i j)"

definition boundary_value :: "int \<Rightarrow> int \<Rightarrow> field \<Rightarrow> int \<Rightarrow> int \<Rightarrow> real" where
  "boundary_value N b x i j =
     (if (i = 0 \<or> i = N - 1) \<and> (j = 0 \<or> j = N - 1)
      then 0.5 * (edge_value N b x (if i = 0 then 1 else N - 2) j
                  + edge_value N b x i (if j = 0 then 1 else N - 2))
      else edge_value N b x i j)"

primrec repeatM :: "nat \<Rightarrow> ('s \<Rightarrow> 's option) \<Rightarrow> 's \<Rightarrow> 's option" where
  "repeatM 0 f s = Some s"
| "repeatM (Suc n) f s = (case f s of None \<Rightarrow> None | Some s' \<Rightarrow> repeatM n f s')"

definition visited :: "int \<Rightarrow> int \<Rightarrow> int \<Rightarrow> int \<Rightarrow> int \<Rightarrow> bool" where
  "visited N j i i' j' \<longleftrightarrow> inner N i' j' \<and> (j' < j \<or> (j' = j \<and> i' < i))"

definition relaxed :: "int \<Rightarrow> real \<Rightarrow> field \<Rightarrow> field \<Rightarrow> field \<Rightarrow> int \<Rightarrow> int \<Rightarrow> bool" where
  "relaxed N a x0 x y i j \<longleftrightarrow>
     cell N y i j = (cell N x0 i j + a * (cell N x (i + 1) j + cell N y (i - 1) j
                                          + cell N x i (j + 1) + cell N y i (j - 1))) / (1 + 4 * a)"

definition scaled_upto :: "real \<Rightarrow> int \<Rightarrow> field \<Rightarrow> field \<Rightarrow> bool" where
  "scaled_upto c k x y \<longleftrightarrow>
     length y = length x \<and> (\<forall>n < length x. y ! n = (if int n < k then x ! n * c else x ! n))"

definition example_params :: params where
  "example_params = \<lparr>dt = 0.1, diffusion = 0.0001, viscosity = 0.000001, iterations = 4,
                      densityDissipation = 0.99, velocityDissipation = 0.99,
                      forceMultiplier = 10, forceRadius = 3 / 20\<rparr>"

definition zeros9 :: field where
  "zeros9 = [0, 0, 0, 0, 0, 0, 0, 0, 0]"

definition centre9 :: field where
  "centre9 = [0, 0, 0, 0, 1, 0, 0, 0, 0]"

definition seeded9 :: field where
  "seeded9 = [0, 0, 0, 0, 50, 0, 0, 0, 0]"


definition dye_fluid :: fluid where
  "dye_fluid = \<lparr>sizeN = 3, params = example_params,
                 u = zeros9, v = zeros9, u_prev = zeros9, v_prev = zeros9,
                 density = seeded9, density_prev = zeros9\<rparr>"

definition push_fluid :: fluid where
  "push_fluid = \<lparr>sizeN = 3, params = example_params,
                 u = centre9, v = zeros9, u_prev = zeros9, v_prev = zeros9,
                 density = zeros9, density_prev = zeros9\<rparr>"


definition arrays :: "fluid \<Rightarrow> field \<times> field \<times> field \<times> field \<times> field \<times> field" where
  "arrays s = (u s, v s, u_prev s, v_prev s, density s, density_prev s)"

definition arraysF :: "fluidF \<Rightarrow> field \<times> field \<times> field \<times> field \<times> field \<times> field" where
  "arraysF f = (uF f, vF f, u_prevF f, v_prevF f, densityF f, density_prevF f)"

definition same_config :: "fluidF \<Rightarrow> fluid \<Rightarrow> bool" where
  "same_config f s \<longleftrightarrow>
     sizeF f = sizeN s \<and> dtF f = dt (params s) \<and> diffusionF f = diffusion (params s) \<and>
     viscosityF f = viscosity (params s) \<and> iterationsF f = iterations (params s)"

definition push_fluidF :: fluidF where
  "push_fluidF = \<lparr>sizeF = 3, dtF = 0.1, diffusionF = 0.0001, viscosityF = 0.000001, iterationsF = 4,
                 uF = centre9, vF = zeros9, u_prevF = zeros9, v_prevF = zeros9,
                 densityF = zeros9, density_prevF = zeros9\<rparr>"

















definition brush :: "real \<Rightarrow> fluid" where
  "brush r = \<lparr>sizeN = 3,
      params = \<lparr>dt = 0.1, diffusion = 0.0001, viscosity = 0.000001, iterations = 4,
                densityDissipation = 0.99, velocityDissipation = 0.99,
                forceMultiplier = 1, forceRadius = r\<rparr>,
      u = zeros9, v = zeros9, u_prev = zeros9, v_prev = zeros9,
      density = zeros9, density_prev = zeros9\<rparr>"

definition deposited :: "int \<Rightarrow> real \<Rightarrow> real \<Rightarrow> fluid \<Rightarrow> fluid \<Rightarrow> int \<Rightarrow> int \<Rightarrow> real \<Rightarrow> bool" where
  "deposited N ax ay s t a b w \<longleftrightarrow>
     cell N (u t) a b = cell N (u s) a b + ax * w \<and>
     cell N (v t) a b = cell N (v s) a b + ay * w \<and>
     cell N (density t) a b = cell N (density s) a b + 100 * w"

definition seen_centre :: "int \<Rightarrow> int \<Rightarrow> bool" where
  "seen_centre k l \<longleftrightarrow> 0 < k \<or> (k = 0 \<and> 0 < l)"

definition clamp_index :: "int \<Rightarrow> int \<Rightarrow> int" where
  "clamp_index N g = min (N - 1) (max 0 g)"

definition force_inv ::
  "int \<Rightarrow> int \<Rightarrow> int \<Rightarrow> int \<Rightarrow> real \<Rightarrow> real \<Rightarrow> fluid \<Rightarrow> int \<Rightarrow> int \<Rightarrow> fluid \<Rightarrow> bool" where
  "force_inv N r gx gy ax ay s k l t \<longleftrightarrow>
     sized N (u t) \<and> sized N (v t) \<and> sized N (density t) \<and>
     (\<forall>a b. inb N a b \<longrightarrow> (\<exists>w. deposited N ax ay s t a b w \<and> 0 \<le> w \<and>
        (r\<^sup>2 < (a - clamp_index N gx)\<^sup>2 + (b - clamp_index N gy)\<^sup>2 \<longrightarrow> w = 0) \<and>
        (a = clamp_index N gx \<and> b = clamp_index N gy \<longrightarrow> (seen_centre k l \<longrightarrow> 1 \<le> w) \<and>
           (0 < a \<and> a < N - 1 \<and> 0 < b \<and> b < N - 1 \<longrightarrow>
              w = (if seen_centre k l then 1 else 0)))))"

definition smear_u :: field where
  "smear_u = [1 - sqrt (2 / 25) / (6 / 5), 1 - sqrt (17 / 25) / (6 / 5), 0,
              1 - sqrt (17 / 25) / (6 / 5), 1 - sqrt (32 / 25) / (6 / 5), 0, 0, 0, 0]"

definition smear_density :: field where
  "smear_density = [100 * (1 - sqrt (2 / 25) / (6 / 5)), 100 * (1 - sqrt (17 / 25) / (6 / 5)), 0,
              100 * (1 - sqrt (17 / 25) / (6 / 5)), 100 * (1 - sqrt (32 / 25) / (6 / 5)), 0, 0, 0, 0]"

definition wellformed :: "fluid \<Rightarrow> bool" where
  "wellformed s \<longleftrightarrow>
     3 \<le> sizeN s \<and>
     sized (sizeN s) (u s) \<and> sized (sizeN s) (v s) \<and>
     sized (sizeN s) (u_prev s) \<and> sized (sizeN s) (v_prev s) \<and>
     sized (sizeN s) (density s) \<and> sized (sizeN s) (density_prev s) \<and>
     0 \<le> dt (params s) \<and> dt (params s) * real_of_int (sizeN s) < overflow_bound \<and>
     0 \<le> diffusion (params s) \<and> 0 \<le> viscosity (params s)"

definition calm9 :: "jsnum list" where
  "calm9 = [Fin 0, Fin 0, Fin 0, Fin 0, Fin 0, Fin 0, Fin 0, Fin 0, Fin 0]"

definition nan9 :: "jsnum list" where
  "nan9 = [Fin 0, Fin 0, Fin 0, Fin 0, NaN, Fin 0, Fin 0, Fin 0, Fin 0]"



declare for_real.simps [simp del]

section \<open>Indexing and loop rules\<close>

lemma IX_floor: "IX N x y = ix N \<lfloor>x\<rfloor> \<lfloor>y\<rfloor>"
  by (simp add: IX_def ix_def)

lemma cell_ix: "cell N x i j = x ! nat (ix N i j)"
  by (simp add: cell_def IX_floor)

lemma ix_bounds:
  assumes "inb N i j"
  shows "0 \<le> ix N i j" and "ix N i j < N * N"
proof -
  from assms have i: "0 \<le> i" "i \<le> N - 1" and j: "0 \<le> j" "j \<le> N - 1" and N: "0 < N"
    by (auto simp: inb_def)
  show "0 \<le> ix N i j" using i j N by (simp add: ix_def)
  have "j * N \<le> (N - 1) * N" using j N by (intro mult_right_mono) auto
  then have "i + j * N \<le> (N - 1) + (N - 1) * N" using i by linarith
  also have "\<dots> = N * N - 1" by (simp add: algebra_simps)
  finally show "ix N i j < N * N" by (simp add: ix_def)
qed

lemma ix_inj:
  assumes "inb N i j" "inb N i' j'"
  shows "ix N i j = ix N i' j' \<longleftrightarrow> i = i' \<and> j = j'"
proof
  assume e: "ix N i j = ix N i' j'"
  from assms have r: "0 \<le> i" "i < N" "0 \<le> i'" "i' < N" by (auto simp: inb_def)
  have "(i + j * N) div N = j" "(i' + j' * N) div N = j'"
    "(i + j * N) mod N = i" "(i' + j' * N) mod N = i'"
    using r by simp_all
  with e show "i = i' \<and> j = j'" unfolding ix_def by simp
qed simp

lemma rd_cell: "sized N x \<Longrightarrow> inb N i j \<Longrightarrow> rd x (ix N i j) = Some (cell N x i j)"
  using ix_bounds[of N i j] by (simp add: rd_def sized_def cell_ix)

lemma sized_wr [simp]: "sized N (wr x k w) = sized N x"
  by (simp add: sized_def wr_def)

lemma length_wr [simp]: "length (wr x k w) = length x"
  by (simp add: wr_def)

lemma cell_wr:
  assumes "sized N x" "inb N i j" "inb N i' j'"
  shows "cell N (wr x (ix N i j) w) i' j' = (if i' = i \<and> j' = j then w else cell N x i' j')"
proof -
  have b: "0 \<le> ix N i j" "ix N i j < int (length x)" "0 \<le> ix N i' j'" "ix N i' j' < int (length x)"
    using ix_bounds[OF assms(2)] ix_bounds[OF assms(3)] assms(1) by (simp_all add: sized_def)
  have "nat (ix N i j) = nat (ix N i' j') \<longleftrightarrow> i = i' \<and> j = j'"
    using ix_inj[OF assms(2,3)] b by auto
  then show ?thesis using b by (auto simp: cell_ix wr_def nth_list_update)
qed

lemma field_ext:
  assumes "sized N x" "sized N y" and "0 < N"
    and eq: "\<And>i j. inb N i j \<Longrightarrow> cell N x i j = cell N y i j"
  shows "x = y"
proof (rule nth_equalityI)
  show len: "length x = length y" using assms(1,2) by (simp add: sized_def)
  fix k assume k: "k < length x"
  then have kN: "int k < N * N" using assms(1) by (simp add: sized_def)
  have N: "0 < N" by fact
  let ?i = "int k mod N" and ?j = "int k div N"
  have "?j < N"
  proof (rule ccontr)
    assume "\<not> ?j < N"
    then have "N * N \<le> N * ?j" using N by (intro mult_left_mono) auto
    moreover have "0 \<le> ?i" using N by simp
    moreover have "int k = N * ?j + ?i" by simp
    ultimately show False using kN by linarith
  qed
  moreover have "0 \<le> ?j" using N by (simp add: pos_imp_zdiv_nonneg_iff)
  ultimately have "inb N ?i ?j" using N by (simp add: inb_def)
  from eq[OF this] have "x ! nat (ix N ?i ?j) = y ! nat (ix N ?i ?j)" by (simp add: cell_ix)
  moreover have "ix N ?i ?j = int k" by (simp add: ix_def)
  ultimately show "x ! k = y ! k" by simp
qed

lemma forM_upto_rule:
  assumes "P a s" "a \<le> b + 1"
    and step: "\<And>k s. a \<le> k \<Longrightarrow> k \<le> b \<Longrightarrow> P k s \<Longrightarrow> \<exists>s'. body k s = Some s' \<and> P (k + 1) s'"
  shows "\<exists>s'. forM [a..b] body s = Some s' \<and> P (b + 1) s'"
  using assms
proof (induction "nat (b + 1 - a)" arbitrary: a s)
  case 0
  then have "a = b + 1" by simp
  with 0 show ?case by simp
next
  case (Suc n)
  then have ab: "a \<le> b" by simp
  from Suc.prems(3)[OF _ ab Suc.prems(1)] obtain s1 where s1: "body a s = Some s1" "P (a + 1) s1" by auto
  have "\<exists>s'. forM [a + 1..b] body s1 = Some s' \<and> P (b + 1) s'"
  proof (rule Suc.hyps(1))
    show "n = nat (b + 1 - (a + 1))" using Suc.hyps(2) by simp
    show "P (a + 1) s1" by fact
    show "a + 1 \<le> b + 1" using ab by simp
    show "\<And>k s. a + 1 \<le> k \<Longrightarrow> k \<le> b \<Longrightarrow> P k s \<Longrightarrow> \<exists>s'. body k s = Some s' \<and> P (k + 1) s'"
      using Suc.prems(3) by simp
  qed
  then show ?case using s1 ab by (simp add: upto_rec1)
qed

lemma bind_rd_cell [simp]:
  "sized N x \<Longrightarrow> inb N i j \<Longrightarrow> (rd x (ix N i j) \<bind> f) = f (cell N x i j)"
  by (simp add: rd_cell)

lemma vertical_loop:
  assumes N: "3 \<le> N" and x: "sized N x"
  shows "\<exists>x'. forM [1..N - 2] (setBoundary_vertical N b) x = Some x' \<and> sized N x' \<and>
           (\<forall>i j. inb N i j \<longrightarrow> cell N x' i j =
              (if 1 \<le> j \<and> j \<le> N - 2 \<and> i = 0 then sgn_b (b = 1) (cell N x 1 j)
               else if 1 \<le> j \<and> j \<le> N - 2 \<and> i = N - 1 then sgn_b (b = 1) (cell N x (N - 2) j)
               else cell N x i j))"
proof -
  let ?P = "\<lambda>k x'. sized N x' \<and>
           (\<forall>i j. inb N i j \<longrightarrow> cell N x' i j =
              (if 1 \<le> j \<and> j < k \<and> i = 0 then sgn_b (b = 1) (cell N x 1 j)
               else if 1 \<le> j \<and> j < k \<and> i = N - 1 then sgn_b (b = 1) (cell N x (N - 2) j)
               else cell N x i j))"
  have "\<exists>x'. forM [1..N - 2] (setBoundary_vertical N b) x = Some x' \<and> ?P (N - 2 + 1) x'"
  proof (rule forM_upto_rule[where P = ?P])
    show "?P 1 x" using x by simp
    show "1 \<le> N - 2 + 1" using N by simp
    fix k y assume k: "1 \<le> k" "k \<le> N - 2" and P: "?P k y"
    have inbs: "inb N 1 k" "inb N 0 k" "inb N (N - 2) k" "inb N (N - 1) k"
      using k N by (simp_all add: inb_def)
    show "\<exists>s'. setBoundary_vertical N b k y = Some s' \<and> ?P (k + 1) s'"
      using P k N inbs
      by (auto simp: setBoundary_vertical_def IX_floor cell_wr sgn_b_def Let_def)
  qed
  then show ?thesis by (auto simp: )
qed

lemma horizontal_loop:
  assumes N: "3 \<le> N" and x: "sized N x"
  shows "\<exists>x'. forM [1..N - 2] (setBoundary_horizontal N b) x = Some x' \<and> sized N x' \<and>
           (\<forall>i j. inb N i j \<longrightarrow> cell N x' i j =
              (if 1 \<le> i \<and> i \<le> N - 2 \<and> j = 0 then sgn_b (b = 2) (cell N x i 1)
               else if 1 \<le> i \<and> i \<le> N - 2 \<and> j = N - 1 then sgn_b (b = 2) (cell N x i (N - 2))
               else cell N x i j))"
proof -
  let ?P = "\<lambda>k x'. sized N x' \<and>
           (\<forall>i j. inb N i j \<longrightarrow> cell N x' i j =
              (if 1 \<le> i \<and> i < k \<and> j = 0 then sgn_b (b = 2) (cell N x i 1)
               else if 1 \<le> i \<and> i < k \<and> j = N - 1 then sgn_b (b = 2) (cell N x i (N - 2))
               else cell N x i j))"
  have "\<exists>x'. forM [1..N - 2] (setBoundary_horizontal N b) x = Some x' \<and> ?P (N - 2 + 1) x'"
  proof (rule forM_upto_rule[where P = ?P])
    show "?P 1 x" using x by simp
    show "1 \<le> N - 2 + 1" using N by simp
    fix k y assume k: "1 \<le> k" "k \<le> N - 2" and P: "?P k y"
    have inbs: "inb N k 1" "inb N k 0" "inb N k (N - 2)" "inb N k (N - 1)"
      using k N by (simp_all add: inb_def)
    show "\<exists>s'. setBoundary_horizontal N b k y = Some s' \<and> ?P (k + 1) s'"
      using P k N inbs
      by (auto simp: setBoundary_horizontal_def IX_floor cell_wr sgn_b_def Let_def)
  qed
  then show ?thesis by (auto simp: )
qed

lemma corners:
  assumes N: "3 \<le> N" and x: "sized N x"
  shows "\<exists>x'. setBoundary_corners N x = Some x' \<and> sized N x' \<and>
           (\<forall>i j. inb N i j \<longrightarrow> cell N x' i j =
              (if (i = 0 \<or> i = N - 1) \<and> (j = 0 \<or> j = N - 1)
               then 0.5 * (cell N x (if i = 0 then 1 else N - 2) j + cell N x i (if j = 0 then 1 else N - 2))
               else cell N x i j))"
proof -
  have inbs: "inb N 0 0" "inb N 1 0" "inb N 0 1" "inb N 1 (N - 1)" "inb N 0 (N - 2)" "inb N 0 (N - 1)"
    "inb N (N - 2) 0" "inb N (N - 1) 1" "inb N (N - 1) 0" "inb N (N - 2) (N - 1)" "inb N (N - 1) (N - 2)"
    "inb N (N - 1) (N - 1)"
    using N by (simp_all add: inb_def)
  show ?thesis
    using x N inbs
    by (auto simp: setBoundary_corners_def IX_floor cell_wr Let_def)
qed

lemma setBoundary_char:
  assumes N: "3 \<le> N" and x: "sized N x"
  shows "\<exists>x'. setBoundary N b x = Some x' \<and> sized N x' \<and>
           (\<forall>i j. inb N i j \<longrightarrow> cell N x' i j = boundary_value N b x i j)"
proof -
  from vertical_loop[OF N x, of b] obtain x1 where
    1: "forM [1..N - 2] (setBoundary_vertical N b) x = Some x1" "sized N x1"
    and c1: "\<And>i j. inb N i j \<Longrightarrow> cell N x1 i j =
              (if 1 \<le> j \<and> j \<le> N - 2 \<and> i = 0 then sgn_b (b = 1) (cell N x 1 j)
               else if 1 \<le> j \<and> j \<le> N - 2 \<and> i = N - 1 then sgn_b (b = 1) (cell N x (N - 2) j)
               else cell N x i j)"
    by blast
  from horizontal_loop[OF N 1(2), of b] obtain x2 where
    2: "forM [1..N - 2] (setBoundary_horizontal N b) x1 = Some x2" "sized N x2"
    and c2: "\<And>i j. inb N i j \<Longrightarrow> cell N x2 i j =
              (if 1 \<le> i \<and> i \<le> N - 2 \<and> j = 0 then sgn_b (b = 2) (cell N x1 i 1)
               else if 1 \<le> i \<and> i \<le> N - 2 \<and> j = N - 1 then sgn_b (b = 2) (cell N x1 i (N - 2))
               else cell N x1 i j)"
    by blast
  from corners[OF N 2(2)] obtain x3 where
    3: "setBoundary_corners N x2 = Some x3" "sized N x3"
    and c3: "\<And>i j. inb N i j \<Longrightarrow> cell N x3 i j =
              (if (i = 0 \<or> i = N - 1) \<and> (j = 0 \<or> j = N - 1)
               then 0.5 * (cell N x2 (if i = 0 then 1 else N - 2) j + cell N x2 i (if j = 0 then 1 else N - 2))
               else cell N x2 i j)"
    by blast
  have e: "cell N x2 i j = edge_value N b x i j"
    if "inb N i j" "\<not> ((i = 0 \<or> i = N - 1) \<and> (j = 0 \<or> j = N - 1))" for i j
  proof -
    have "inb N i 1" "inb N i (N - 2)" using that N by (auto simp: inb_def)
    then show ?thesis using that N c2[OF that(1)] c1[of i j] c1[of i 1] c1[of i "N - 2"]
      by (auto simp: edge_value_def inb_def)
  qed
  have "cell N x3 i j = boundary_value N b x i j" if ij: "inb N i j" for i j
  proof (cases "(i = 0 \<or> i = N - 1) \<and> (j = 0 \<or> j = N - 1)")
    case True
    have "inb N (if i = 0 then 1 else N - 2) j" "inb N i (if j = 0 then 1 else N - 2)"
      using ij N by (auto simp: inb_def)
    then show ?thesis using True N c3[OF ij] e
      by (simp add: boundary_value_def)
  next
    case False
    then show ?thesis using c3[OF ij] e[OF ij] by (auto simp: boundary_value_def)
  qed
  then show ?thesis using 1 2 3 by (simp add: setBoundary_def)
qed

lemma boundary_value_inner:
  "3 \<le> N \<Longrightarrow> inner N i j \<Longrightarrow> boundary_value N b x i j = cell N x i j"
  by (auto simp: boundary_value_def edge_value_def inner_def)

lemma boundary_value_cong:
  assumes "3 \<le> N" and "\<And>i j. inner N i j \<Longrightarrow> cell N y i j = cell N x i j" and "inb N i j"
  shows "boundary_value N b y i j = boundary_value N b x i j"
proof -
  have "inner N 1 j" "inner N (N - 2) j" if "1 \<le> j" "j \<le> N - 2" for j
    using that assms(1) by (auto simp: inner_def)
  moreover have "inner N i 1" "inner N i (N - 2)" if "1 \<le> i" "i \<le> N - 2" for i
    using that assms(1) by (auto simp: inner_def)
  ultimately show ?thesis using assms
    by (auto simp: boundary_value_def edge_value_def inb_def inner_def)
qed

lemma setBoundary_idem:
  assumes N: "3 \<le> N" and x: "sized N x" and 1: "setBoundary N b x = Some x1"
  shows "setBoundary N b x1 = Some x1"
proof -
  from setBoundary_char[OF N x, of b] 1 have s1: "sized N x1"
    and c1: "\<And>i j. inb N i j \<Longrightarrow> cell N x1 i j = boundary_value N b x i j" by auto
  from setBoundary_char[OF N s1, of b] obtain x2 where 2: "setBoundary N b x1 = Some x2" "sized N x2"
    and c2: "\<And>i j. inb N i j \<Longrightarrow> cell N x2 i j = boundary_value N b x1 i j" by blast
  have "x2 = x1"
  proof (rule field_ext[OF 2(2) s1])
    show "0 < N" using N by simp
    fix i j assume ij: "inb N i j"
    have "boundary_value N b x1 i j = boundary_value N b x i j"
    proof (rule boundary_value_cong[OF N _ ij])
      fix i j assume "inner N i j"
      then have "inb N i j" using N by (auto simp: inner_def inb_def)
      then show "cell N x1 i j = cell N x i j"
        using c1 boundary_value_inner[OF N \<open>inner N i j\<close>] by simp
    qed
    then show "cell N x2 i j = cell N x1 i j" using c1[OF ij] c2[OF ij] by simp
  qed
  then show ?thesis using 2 by simp
qed

lemma forM_const_repeatM: "forM [a..b] (\<lambda>k. f) s = repeatM (nat (b + 1 - a)) f s"
proof (induction "nat (b + 1 - a)" arbitrary: a s)
  case 0
  then show ?case by simp
next
  case (Suc n)
  then have ab: "a \<le> b" by simp
  have n: "n = nat (b + 1 - (a + 1))" using Suc.hyps(2) by simp
  have "nat (b + 1 - a) = Suc (nat (b + 1 - (a + 1)))" using ab by simp
  then show ?case using Suc.hyps(1)[OF n] ab
    by (simp add: upto_rec1 split: option.splits)
qed

lemma for_interior_rule:
  assumes N: "2 \<le> N" and start: "P 1 1 s"
    and step: "\<And>j i s. 1 \<le> j \<Longrightarrow> j \<le> N - 2 \<Longrightarrow> 1 \<le> i \<Longrightarrow> i \<le> N - 2 \<Longrightarrow> P j i s
                 \<Longrightarrow> \<exists>s'. body j i s = Some s' \<and> P j (i + 1) s'"
    and row: "\<And>j s. 1 \<le> j \<Longrightarrow> j \<le> N - 2 \<Longrightarrow> P j (N - 1) s \<Longrightarrow> P (j + 1) 1 s"
  shows "\<exists>s'. for_interior N body s = Some s' \<and> P (N - 1) 1 s'"
proof -
  have "\<exists>s'. forM [1..N - 2] (\<lambda>j. forM [1..N - 2] (\<lambda>i. body j i)) s = Some s' \<and> P (N - 2 + 1) 1 s'"
  proof (rule forM_upto_rule[where P = "\<lambda>j. P j 1"])
    show "P 1 1 s" by fact
    show "1 \<le> N - 2 + 1" using N by simp
    fix j t assume j: "1 \<le> j" "j \<le> N - 2" and P: "P j 1 t"
    have "\<exists>s'. forM [1..N - 2] (\<lambda>i. body j i) t = Some s' \<and> P j (N - 2 + 1) s'"
      by (rule forM_upto_rule[where P = "P j"]) (use P N j step in auto)
    then show "\<exists>s'. forM [1..N - 2] (\<lambda>i. body j i) t = Some s' \<and> P (j + 1) 1 s'"
      using row[OF j] by auto
  qed
  then show ?thesis by (simp add: for_interior_def)
qed

lemma for_interior_inv:
  assumes N: "2 \<le> N" and start: "Q s"
    and step: "\<And>j i s. inner N i j \<Longrightarrow> Q s \<Longrightarrow> \<exists>s'. body j i s = Some s' \<and> Q s'"
  shows "\<exists>s'. for_interior N body s = Some s' \<and> Q s'"
  by (rule for_interior_rule[where P = "\<lambda>j i. Q"]) (use assms in \<open>auto simp: inner_def\<close>)

lemma overflow_bound_large: "2 ^ 64 < overflow_bound"
  by (simp add: overflow_bound_def)

lemma js_result_small: "\<bar>x\<bar> \<le> 2 ^ 64 \<Longrightarrow> js_result x = Fin x"
  using overflow_bound_large by (simp add: js_result_def)

lemma clamp_coord_NaN: "clamp_coord N NaN = NaN"
  by (simp add: clamp_coord_def)

lemma clamp_coord_Fin:
  "2 \<le> N \<Longrightarrow> clamp_coord N (Fin a) =
     Fin (if a < 0.5 then 0.5 else if real_of_int N - 1.5 < a then real_of_int N - 1.5 else a)"
  by (simp add: clamp_coord_def Let_def)

lemma clamp_coord_PInf: "clamp_coord N PInf = Fin (real_of_int N - 1.5)"
  by (simp add: clamp_coord_def Let_def)

lemma clamp_coord_NInf: "2 \<le> N \<Longrightarrow> clamp_coord N NInf = Fin 0.5"
  by (simp add: clamp_coord_def Let_def)

lemma clamp_coord_range:
  assumes "2 \<le> N" "p \<noteq> NaN"
  shows "\<exists>x. clamp_coord N p = Fin x \<and> 0.5 \<le> x \<and> x \<le> real_of_int N - 1.5"
proof (cases p)
  case (Fin a)
  let ?x = "if a < 0.5 then 0.5 else if real_of_int N - 1.5 < a then real_of_int N - 1.5 else a"
  have "clamp_coord N p = Fin ?x" using Fin assms(1) by (simp only: clamp_coord_Fin)
  moreover have "0.5 \<le> ?x \<and> ?x \<le> real_of_int N - 1.5" using assms(1) by simp
  ultimately show ?thesis by blast
next
  case PInf
  have "clamp_coord N p = Fin (real_of_int N - 1.5)" using PInf by (simp only: clamp_coord_PInf)
  moreover have "0.5 \<le> real_of_int N - 1.5" using assms(1) by simp
  ultimately show ?thesis by blast
next
  case NInf
  have "clamp_coord N p = Fin 0.5" using NInf assms(1) by (simp only: clamp_coord_NInf)
  moreover have "(0.5::real) \<le> real_of_int N - 1.5" using assms(1) by simp
  ultimately show ?thesis by blast
next
  case NaN
  then show ?thesis using assms(2) by simp
qed

lemma clamp_coord_floor:
  assumes "2 \<le> N" "p \<noteq> NaN"
  shows "\<exists>x. clamp_coord N p = Fin x \<and> 0 \<le> \<lfloor>x\<rfloor> \<and> \<lfloor>x\<rfloor> + 1 \<le> N - 1"
proof -
  from clamp_coord_range[OF assms] obtain x where
    x: "clamp_coord N p = Fin x" and r: "0.5 \<le> x" "x \<le> real_of_int N - 1.5" by blast
  have "0 \<le> \<lfloor>x\<rfloor>" using r(1) by simp
  moreover have "x < real_of_int (N - 1)" using r(2) by simp
  then have "\<lfloor>x\<rfloor> < N - 1" by (simp only: floor_less_iff)
  ultimately show ?thesis using x by simp
qed

lemma backtrace_fin:
  assumes "\<bar>t * real_of_int N\<bar> < overflow_bound"
  shows "backtrace N (Fin t) k (Fin w) \<noteq> NaN"
  using assms by (auto simp: backtrace_def js_result_def)

lemma advect_sample_total:
  assumes N: "3 \<le> N" and s: "sized N d0" and p: "p \<noteq> NaN" and q: "q \<noteq> NaN"
  shows "\<exists>w. advect_sample N d0 (clamp_coord N p) (clamp_coord N q) = Some w"
proof -
  have N2: "2 \<le> N" using N by simp
  from clamp_coord_floor[OF N2 p] obtain x where
    x: "clamp_coord N p = Fin x" "0 \<le> \<lfloor>x\<rfloor>" "\<lfloor>x\<rfloor> + 1 \<le> N - 1" by blast
  from clamp_coord_floor[OF N2 q] obtain y where
    y: "clamp_coord N q = Fin y" "0 \<le> \<lfloor>y\<rfloor>" "\<lfloor>y\<rfloor> + 1 \<le> N - 1" by blast
  have c: "inb N \<lfloor>x\<rfloor> \<lfloor>y\<rfloor>" "inb N \<lfloor>x\<rfloor> (\<lfloor>y\<rfloor> + 1)" "inb N (\<lfloor>x\<rfloor> + 1) \<lfloor>y\<rfloor>"
    "inb N (\<lfloor>x\<rfloor> + 1) (\<lfloor>y\<rfloor> + 1)"
    using x(2,3) y(2,3) by (auto simp: inb_def)
  show ?thesis using s c by (simp add: x(1) y(1) IX_floor Let_def)
qed

lemma advect_cell_total:
  assumes N: "3 \<le> N" and s: "sized N d" "sized N d0" "sized N velocX" "sized N velocY"
    and ij: "inner N i j"
    and nn: "backtrace N dtv i (cell N velocX i j) \<noteq> NaN" "backtrace N dtv j (cell N velocY i j) \<noteq> NaN"
  shows "\<exists>d'. advect_cell N d0 velocX velocY dtv j i d = Some d' \<and> sized N d'"
proof -
  have ij': "inb N i j" using ij N by (auto simp: inner_def inb_def)
  from advect_sample_total[OF N s(2) nn] obtain w where
    "advect_sample N d0 (clamp_coord N (backtrace N dtv i (cell N velocX i j)))
       (clamp_coord N (backtrace N dtv j (cell N velocY i j))) = Some w" by blast
  then show ?thesis
    using s ij' by (simp add: advect_cell_def IX_floor Let_def)
qed

lemma advect_total:
  assumes N: "3 \<le> N" and s: "sized N d" "sized N d0" "sized N velocX" "sized N velocY"
    and nn: "\<And>i j. inner N i j \<Longrightarrow> backtrace N dtv i (cell N velocX i j) \<noteq> NaN
                                  \<and> backtrace N dtv j (cell N velocY i j) \<noteq> NaN"
  shows "\<exists>d'. advect N b d d0 velocX velocY dtv = Some d' \<and> sized N d'"
proof -
  have "\<exists>d1. for_interior N (advect_cell N d0 velocX velocY dtv) d = Some d1 \<and> sized N d1"
    by (rule for_interior_inv) (use N s nn advect_cell_total in auto)
  then obtain d1 where 1: "for_interior N (advect_cell N d0 velocX velocY dtv) d = Some d1" "sized N d1"
    by blast
  from setBoundary_char[OF N 1(2), of b] 1 show ?thesis by (auto simp: advect_def)
qed

lemma sized_map [simp]: "sized N (map f x) = sized N x"
  by (simp add: sized_def)

lemma cell_map: "sized N x \<Longrightarrow> inb N i j \<Longrightarrow> cell N (map f x) i j = f (cell N x i j)"
  using ix_bounds[of N i j] by (simp add: cell_ix sized_def)

lemma advect_total_fin:
  assumes N: "3 \<le> N" and s: "sized N d" "sized N d0" "sized N velocX" "sized N velocY"
    and t: "\<bar>t * real_of_int N\<bar> < overflow_bound"
  shows "\<exists>d'. advect N b d d0 (map Fin velocX) (map Fin velocY) (Fin t) = Some d' \<and> sized N d'"
proof (rule advect_total[OF N s(1,2)])
  show "sized N (map Fin velocX)" "sized N (map Fin velocY)" using s by simp_all
  fix i j assume "inner N i j"
  then have "inb N i j" by (simp add: inner_def inb_def)
  then show "backtrace N (Fin t) i (cell N (map Fin velocX) i j) \<noteq> NaN
             \<and> backtrace N (Fin t) j (cell N (map Fin velocY) i j) \<noteq> NaN"
    using s(3,4) backtrace_fin[OF t] by (simp add: cell_map)
qed

lemma inner_inb: "inner N i j \<Longrightarrow> inb N i j \<and> inb N (i + 1) j \<and> inb N (i - 1) j \<and> inb N i (j + 1) \<and> inb N i (j - 1)"
  by (auto simp: inner_def inb_def)

lemma diffuse_cell_step:
  assumes N: "3 \<le> N" and s: "sized N y" "sized N x0" and a: "1 + 4 * a \<noteq> 0"
    and ij: "inner N i j"
    and inv: "\<And>i' j'. inb N i' j' \<Longrightarrow>
               (if visited N j i i' j' then relaxed N a x0 x y i' j' else cell N y i' j' = cell N x i' j')"
  shows "\<exists>y'. diffuse_cell N a x0 j i y = Some y' \<and> sized N y' \<and>
           (\<forall>i' j'. inb N i' j' \<longrightarrow>
               (if visited N j (i + 1) i' j' then relaxed N a x0 x y' i' j' else cell N y' i' j' = cell N x i' j'))"
proof -
  note nb = inner_inb[OF ij]
  define q where "q = (cell N x0 i j + a * (cell N y (i + 1) j + cell N y (i - 1) j
                                          + cell N y i (j + 1) + cell N y i (j - 1))) / (1 + 4 * a)"
  define y' where "y' = wr y (ix N i j) q"
  have run: "diffuse_cell N a x0 j i y = Some y'"
    using s nb a by (simp add: diffuse_cell_def IX_floor fdiv_def y'_def q_def)
  have sz: "sized N y'" using s by (simp add: y'_def)
  have upd: "cell N y' i' j' = (if i' = i \<and> j' = j then q else cell N y i' j')" if "inb N i' j'" for i' j'
    unfolding y'_def using cell_wr[OF s(1) _ that, of i j q] nb by simp
  have E: "cell N y (i + 1) j = cell N x (i + 1) j" and S: "cell N y i (j + 1) = cell N x i (j + 1)"
    using inv[of "i + 1" j] inv[of i "j + 1"] nb by (auto simp: visited_def)
  have "if visited N j (i + 1) i' j' then relaxed N a x0 x y' i' j' else cell N y' i' j' = cell N x i' j'"
    if b: "inb N i' j'" for i' j'
  proof (cases "i' = i \<and> j' = j")
    case True
    then have "visited N j (i + 1) i' j'" using ij by (simp add: visited_def)
    moreover have "relaxed N a x0 x y' i j"
      using upd[of i j] upd[of "i - 1" j] upd[of i "j - 1"] nb E S
      by (simp add: relaxed_def q_def)
    ultimately show ?thesis using True by simp
  next
    case False
    show ?thesis
    proof (cases "visited N j i i' j'")
      case True
      then have in': "inner N i' j'" and before: "j' < j \<or> (j' = j \<and> i' < i)" by (auto simp: visited_def)
      note nb' = inner_inb[OF in']
      have "cell N y' (i' - 1) j' = cell N y (i' - 1) j'" "cell N y' i' (j' - 1) = cell N y i' (j' - 1)"
        "cell N y' i' j' = cell N y i' j'"
        using upd[of "i' - 1" j'] upd[of i' "j' - 1"] upd[of i' j'] nb' before by auto
      moreover have "relaxed N a x0 x y i' j'" using inv[OF b] True by simp
      ultimately have "relaxed N a x0 x y' i' j'" by (simp add: relaxed_def)
      moreover have "visited N j (i + 1) i' j'" using True by (auto simp: visited_def)
      ultimately show ?thesis by simp
    next
      case nv: False
      then have "\<not> visited N j (i + 1) i' j'" using False by (auto simp: visited_def)
      moreover have "cell N y' i' j' = cell N x i' j'" using upd[OF b] False inv[OF b] nv by simp
      ultimately show ?thesis by simp
    qed
  qed
  then show ?thesis using run sz by blast
qed

lemma diffuse_interior:
  assumes N: "3 \<le> N" and s: "sized N x" "sized N x0" and a: "1 + 4 * a \<noteq> 0"
  shows "\<exists>x'. for_interior N (diffuse_cell N a x0) x = Some x' \<and> sized N x' \<and>
           (\<forall>i j. inb N i j \<longrightarrow> (if inner N i j then relaxed N a x0 x x' i j else cell N x' i j = cell N x i j))"
proof -
  let ?P = "\<lambda>j i y. sized N y \<and> (\<forall>i' j'. inb N i' j' \<longrightarrow>
               (if visited N j i i' j' then relaxed N a x0 x y i' j' else cell N y i' j' = cell N x i' j'))"
  have "\<exists>x'. for_interior N (diffuse_cell N a x0) x = Some x' \<and> ?P (N - 1) 1 x'"
  proof (rule for_interior_rule[where P = ?P])
    show "2 \<le> N" using N by simp
    show "?P 1 1 x" using s by (auto simp: visited_def inner_def)
  next
    fix j i y assume "1 \<le> j" "j \<le> N - 2" "1 \<le> i" "i \<le> N - 2" and P: "?P j i y"
    then have "inner N i j" by (simp add: inner_def)
    from diffuse_cell_step[OF N _ s(2) a this, of y x] P
    show "\<exists>s'. diffuse_cell N a x0 j i y = Some s' \<and> ?P j (i + 1) s'" by blast
  next
    fix j y assume "1 \<le> j" "j \<le> N - 2" and P: "?P j (N - 1) y"
    have "visited N (j + 1) 1 i' j' = visited N j (N - 1) i' j'" for i' j'
      by (auto simp: visited_def inner_def)
    then show "?P (j + 1) 1 y" using P by simp
  qed
  moreover have "visited N (N - 1) 1 i j = inner N i j" for i j
    by (auto simp: visited_def inner_def)
  ultimately show ?thesis by simp
qed


section \<open>Boundary handling\<close>

text \<open>
  Claim C2. On a grid of side \<open>N \<ge> 3\<close>, \<open>setBoundary(b, field)\<close> succeeds, and in the array it
  leaves: for every interior \<open>j\<close> the left and right border cells are the neighbouring
  interior cells, negated exactly when \<open>b = 1\<close>; for every interior \<open>i\<close> the top and
  bottom border cells are the neighbouring interior cells, negated exactly when \<open>b = 2\<close>; and
  each of the four corners is the average of its two adjacent border cells, whatever \<open>b\<close> is.
\<close>

theorem setBoundary_mirrors_and_corners:
  assumes "3 \<le> N" and "sized N x"
  shows "\<exists>x'. setBoundary N b x = Some x' \<and>
     (\<forall>j. 1 \<le> j \<and> j \<le> N - 2 \<longrightarrow>
        cell N x' 0 j = (if b = 1 then - cell N x' 1 j else cell N x' 1 j) \<and>
        cell N x' (N - 1) j = (if b = 1 then - cell N x' (N - 2) j else cell N x' (N - 2) j)) \<and>
     (\<forall>i. 1 \<le> i \<and> i \<le> N - 2 \<longrightarrow>
        cell N x' i 0 = (if b = 2 then - cell N x' i 1 else cell N x' i 1) \<and>
        cell N x' i (N - 1) = (if b = 2 then - cell N x' i (N - 2) else cell N x' i (N - 2))) \<and>
     cell N x' 0 0 = (cell N x' 1 0 + cell N x' 0 1) / 2 \<and>
     cell N x' 0 (N - 1) = (cell N x' 1 (N - 1) + cell N x' 0 (N - 2)) / 2 \<and>
     cell N x' (N - 1) 0 = (cell N x' (N - 2) 0 + cell N x' (N - 1) 1) / 2 \<and>
     cell N x' (N - 1) (N - 1) = (cell N x' (N - 2) (N - 1) + cell N x' (N - 1) (N - 2)) / 2"
proof -
  from setBoundary_char[OF assms, of b] obtain x' where run: "setBoundary N b x = Some x'"
    and c: "\<And>i j. inb N i j \<Longrightarrow> cell N x' i j = boundary_value N b x i j" by blast
  have N: "3 \<le> N" by fact
  have vert: "cell N x' 0 j = (if b = 1 then - cell N x' 1 j else cell N x' 1 j) \<and>
        cell N x' (N - 1) j = (if b = 1 then - cell N x' (N - 2) j else cell N x' (N - 2) j)"
    if "1 \<le> j" "j \<le> N - 2" for j
  proof -
    have "inb N 0 j" "inb N 1 j" "inb N (N - 1) j" "inb N (N - 2) j"
      using that N by (simp_all add: inb_def)
    then show ?thesis using that N
      by (simp add: c boundary_value_def edge_value_def sgn_b_def)
  qed
  have horiz: "cell N x' i 0 = (if b = 2 then - cell N x' i 1 else cell N x' i 1) \<and>
        cell N x' i (N - 1) = (if b = 2 then - cell N x' i (N - 2) else cell N x' i (N - 2))"
    if "1 \<le> i" "i \<le> N - 2" for i
  proof -
    have "inb N i 0" "inb N i 1" "inb N i (N - 1)" "inb N i (N - 2)"
      using that N by (simp_all add: inb_def)
    then show ?thesis using that N
      by (simp add: c boundary_value_def edge_value_def sgn_b_def)
  qed
  have inbs: "inb N 0 0" "inb N 1 0" "inb N 0 1" "inb N 1 (N - 1)" "inb N 0 (N - 2)" "inb N 0 (N - 1)"
    "inb N (N - 2) 0" "inb N (N - 1) 1" "inb N (N - 1) 0" "inb N (N - 2) (N - 1)" "inb N (N - 1) (N - 2)"
    "inb N (N - 1) (N - 1)"
    using N by (simp_all add: inb_def)
  have c00: "cell N x' 0 0 = (cell N x' 1 0 + cell N x' 0 1) / 2"
    using inbs N by (simp add: c boundary_value_def edge_value_def)
  have c0N: "cell N x' 0 (N - 1) = (cell N x' 1 (N - 1) + cell N x' 0 (N - 2)) / 2"
    using inbs N by (simp add: c boundary_value_def edge_value_def)
  have cN0: "cell N x' (N - 1) 0 = (cell N x' (N - 2) 0 + cell N x' (N - 1) 1) / 2"
    using inbs N by (simp add: c boundary_value_def edge_value_def)
  have cNN: "cell N x' (N - 1) (N - 1) = (cell N x' (N - 2) (N - 1) + cell N x' (N - 1) (N - 2)) / 2"
    using inbs N by (simp add: c boundary_value_def edge_value_def)
  show ?thesis using run vert horiz c00 c0N cN0 cNN by blast
qed

theorem setBoundary_mirrors_and_corners_witness:
  "\<exists>x'. setBoundary 3 1 [1, 2, 3, 4, 5, 6, 7, 8, 9] = Some x' \<and>
     cell 3 x' 0 1 = - cell 3 x' 1 1 \<and> cell 3 x' 2 1 = - cell 3 x' 1 1 \<and>
     cell 3 x' 1 0 = cell 3 x' 1 1 \<and> cell 3 x' 1 2 = cell 3 x' 1 1 \<and>
     cell 3 x' 0 0 = (cell 3 x' 1 0 + cell 3 x' 0 1) / 2 \<and>
     cell 3 x' 2 2 = (cell 3 x' 1 2 + cell 3 x' 2 1) / 2"
  using setBoundary_mirrors_and_corners[of 3 "[1, 2, 3, 4, 5, 6, 7, 8, 9]" 1]
  by (auto simp: sized_def)

text \<open>
  Claim C10. \<open>setBoundary\<close> is idempotent on a grid of side \<open>N \<ge> 3\<close>: applied to its own
  result it returns that result unchanged.
\<close>

theorem setBoundary_idempotent:
  assumes "3 \<le> N" and "sized N x"
  shows "\<exists>x1. setBoundary N b x = Some x1 \<and> setBoundary N b x1 = Some x1"
proof -
  from setBoundary_char[OF assms, of b] obtain x1 where "setBoundary N b x = Some x1" by blast
  with setBoundary_idem[OF assms this] show ?thesis by simp
qed

theorem setBoundary_idempotent_witness:
  "\<exists>x1. setBoundary 3 2 [1, 2, 3, 4, 5, 6, 7, 8, 9] = Some x1 \<and> setBoundary 3 2 x1 = Some x1"
  using setBoundary_idempotent[of 3 "[1, 2, 3, 4, 5, 6, 7, 8, 9]" 2]
  by (simp add: sized_def)

section \<open>Advection\<close>

text \<open>
  Claim C1 says that no time step and no contents of the velocity arrays make \<open>advect\<close> read
  outside an array. A finite time step large enough for \<open>dt * N\<close> to overflow does, at a
  cell whose velocity is zero: the product of the infinity and zero is NaN, both clamping
  tests are false for NaN, and the sample is read at the index NaN. So does a velocity cell
  that is NaN, with any time step.
\<close>

theorem advect_nan_counterexample:
  "sized 3 zeros9 \<and> sized 3 centre9 \<and> sized 3 calm9 \<and> sized 3 nan9 \<and>
   js_times (Fin (10 ^ 308)) (Fin 3) = PInf \<and>
   backtrace 3 (Fin (10 ^ 308)) 1 (cell 3 calm9 1 1) = NaN \<and>
   clamp_coord 3 NaN = NaN \<and>
   advect_sample 3 centre9 NaN NaN = None \<and>
   advect 3 0 zeros9 centre9 calm9 calm9 (Fin (10 ^ 308)) = None \<and>
   backtrace 3 (Fin (1 / 10)) 1 (cell 3 nan9 1 1) = NaN \<and>
   advect 3 0 zeros9 centre9 nan9 calm9 (Fin (1 / 10)) = None"
proof -
  have "js_result (10 ^ 308 * 3) = PInf"
    by (simp add: js_result_def overflow_bound_def)
  then show ?thesis
    by (simp add: sized_def zeros9_def centre9_def nan9_def calm9_def cell_def
        advect_def advect_cell_def for_interior_def IX_def rd_def wr_def clamp_coord_def
        backtrace_def js_result_small upto.simps[of 0] upto.simps[of 1] Let_def)
qed

text \<open>
  Claim C1, amended. On a grid of side \<open>N \<ge> 3\<close>, whenever no backtraced coordinate of an
  interior cell is NaN: every clamped coordinate is finite, its floor \<open>i0\<close> (or \<open>j0\<close>) is at
  least \<open>0\<close> and \<open>i1 = i0 + 1\<close> (or \<open>j1\<close>) at most \<open>N - 1\<close>, and \<open>advect\<close> runs to its end without
  a read outside an array. No backtraced coordinate is NaN when \<open>dt\<close> and the velocity are
  finite, however large, and \<open>dt * N\<close> does not overflow.
\<close>

theorem advect_clamp_safety:
  assumes "3 \<le> N" and "sized N d" and "sized N d0" and "sized N velocX" and "sized N velocY"
    and "\<forall>i j. inner N i j \<longrightarrow> backtrace N dtv i (cell N velocX i j) \<noteq> NaN
                               \<and> backtrace N dtv j (cell N velocY i j) \<noteq> NaN"
  shows "(\<forall>p. p \<noteq> NaN \<longrightarrow> (\<exists>x. clamp_coord N p = Fin x \<and> 0 \<le> \<lfloor>x\<rfloor> \<and> \<lfloor>x\<rfloor> + 1 \<le> N - 1)) \<and>
         (\<exists>d'. advect N b d d0 velocX velocY dtv = Some d') \<and>
         (\<forall>t w k. \<bar>t * real_of_int N\<bar> < overflow_bound \<longrightarrow> backtrace N (Fin t) k (Fin w) \<noteq> NaN)"
proof -
  have "2 \<le> N" using assms(1) by simp
  from clamp_coord_floor[OF this] advect_total[OF assms(1-5), of dtv b] assms(6) backtrace_fin
  show ?thesis by blast
qed

theorem advect_clamp_safety_witness:
  "(\<exists>x. clamp_coord 3 (backtrace 3 (Fin 100) 1 (Fin 1000000)) = Fin x \<and>
        0 \<le> \<lfloor>x\<rfloor> \<and> \<lfloor>x\<rfloor> + 1 \<le> 2) \<and>
   (\<exists>d'. advect 3 0 [0, 0, 0, 0, 0, 0, 0, 0, 0] [1, 2, 3, 4, 5, 6, 7, 8, 9]
            [Fin 0, Fin 0, Fin 0, Fin 0, Fin 1000000, Fin 0, Fin 0, Fin 0, Fin 0]
            [Fin 0, Fin 0, Fin 0, Fin 0, PInf, Fin 0, Fin 0, Fin 0, Fin 0] (Fin 100) = Some d')"
proof -
  have h: "\<forall>i j. inner 3 i j \<longrightarrow>
          backtrace 3 (Fin 100) i
            (cell 3 [Fin 0, Fin 0, Fin 0, Fin 0, Fin 1000000, Fin 0, Fin 0, Fin 0, Fin 0] i j) \<noteq> NaN \<and>
          backtrace 3 (Fin 100) j
            (cell 3 [Fin 0, Fin 0, Fin 0, Fin 0, PInf, Fin 0, Fin 0, Fin 0, Fin 0] i j) \<noteq> NaN"
  proof (intro allI impI)
    fix i j :: int assume "inner 3 i j"
    then have "i = 1" "j = 1" by (auto simp: inner_def)
    then show "backtrace 3 (Fin 100) i
            (cell 3 [Fin 0, Fin 0, Fin 0, Fin 0, Fin 1000000, Fin 0, Fin 0, Fin 0, Fin 0] i j) \<noteq> NaN \<and>
          backtrace 3 (Fin 100) j
            (cell 3 [Fin 0, Fin 0, Fin 0, Fin 0, PInf, Fin 0, Fin 0, Fin 0, Fin 0] i j) \<noteq> NaN"
      by (simp add: cell_def IX_def backtrace_def js_result_small)
  qed
  have nn: "backtrace 3 (Fin 100) 1 (Fin 1000000) \<noteq> NaN"
    by (simp add: backtrace_def js_result_small)
  from advect_clamp_safety[of 3 "[0, 0, 0, 0, 0, 0, 0, 0, 0]" "[1, 2, 3, 4, 5, 6, 7, 8, 9]"
      "[Fin 0, Fin 0, Fin 0, Fin 0, Fin 1000000, Fin 0, Fin 0, Fin 0, Fin 0]"
      "[Fin 0, Fin 0, Fin 0, Fin 0, PInf, Fin 0, Fin 0, Fin 0, Fin 0]" "Fin 100" 0] h
  have a: "\<forall>p. p \<noteq> NaN \<longrightarrow> (\<exists>x. clamp_coord 3 p = Fin x \<and> 0 \<le> \<lfloor>x\<rfloor> \<and> \<lfloor>x\<rfloor> + 1 \<le> 2)"
    and b: "\<exists>d'. advect 3 0 [0, 0, 0, 0, 0, 0, 0, 0, 0] [1, 2, 3, 4, 5, 6, 7, 8, 9]
            [Fin 0, Fin 0, Fin 0, Fin 0, Fin 1000000, Fin 0, Fin 0, Fin 0, Fin 0]
            [Fin 0, Fin 0, Fin 0, Fin 0, PInf, Fin 0, Fin 0, Fin 0, Fin 0] (Fin 100) = Some d'"
    by (simp_all add: sized_def)
  from a nn have "\<exists>x. clamp_coord 3 (backtrace 3 (Fin 100) 1 (Fin 1000000)) = Fin x \<and>
        0 \<le> \<lfloor>x\<rfloor> \<and> \<lfloor>x\<rfloor> + 1 \<le> 2" by blast
  then show ?thesis using b by blast
qed

section \<open>Diffusion\<close>

text \<open>
  Claim C3. \<open>diffuse\<close> runs its sweep exactly \<open>iterations\<close> times, with
  \<open>a = dt * rate * (N - 2)\<^sup>2\<close> and no other stopping rule; a sweep is the pass over the interior
  cells followed by \<open>setBoundary\<close>; and the pass assigns to every interior cell
  \<open>(src[i,j] + a * (dst[i+1,j] + dst[i-1,j] + dst[i,j+1] + dst[i,j-1])) / (1 + 4a)\<close>, where
  the cells \<open>(i-1,j)\<close> and \<open>(i,j-1)\<close> already hold their values of this pass, the cells
  \<open>(i+1,j)\<close> and \<open>(i,j+1)\<close> still those from before it, and the border is not touched.
\<close>

theorem diffuse_sweeps:
  "diffuse N iters b x x0 rate dtv =
     repeatM (nat iters) (diffuse_sweep N b (dtv * rate * (real_of_int N - 2)\<^sup>2) x0) x \<and>
   diffuse_sweep N b a x0 x = for_interior N (diffuse_cell N a x0) x \<bind> setBoundary N b \<and>
   (3 \<le> N \<and> sized N x \<and> sized N x0 \<and> 1 + 4 * a \<noteq> 0 \<longrightarrow>
     (\<exists>x'. for_interior N (diffuse_cell N a x0) x = Some x' \<and>
        (\<forall>i j. 1 \<le> i \<and> i \<le> N - 2 \<and> 1 \<le> j \<and> j \<le> N - 2 \<longrightarrow>
           cell N x' i j =
             (cell N x0 i j + a * (cell N x (i + 1) j + cell N x' (i - 1) j
                                   + cell N x i (j + 1) + cell N x' i (j - 1))) / (1 + 4 * a)) \<and>
        (\<forall>i j. 0 \<le> i \<and> i < N \<and> 0 \<le> j \<and> j < N \<and> (i = 0 \<or> i = N - 1 \<or> j = 0 \<or> j = N - 1) \<longrightarrow>
           cell N x' i j = cell N x i j)))"
proof (intro conjI impI)
  have "dtv * rate * real_of_int (N - 2) * real_of_int (N - 2) = dtv * rate * (real_of_int N - 2)\<^sup>2"
    by (simp add: power2_eq_square)
  moreover have "nat (iters - 1 + 1 - 0) = nat iters" by simp
  ultimately show "diffuse N iters b x x0 rate dtv =
     repeatM (nat iters) (diffuse_sweep N b (dtv * rate * (real_of_int N - 2)\<^sup>2) x0) x"
    unfolding diffuse_def Let_def forM_const_repeatM by (simp only:)
  show "diffuse_sweep N b a x0 x = for_interior N (diffuse_cell N a x0) x \<bind> setBoundary N b"
    by (simp add: diffuse_sweep_def)
  assume h: "3 \<le> N \<and> sized N x \<and> sized N x0 \<and> 1 + 4 * a \<noteq> 0"
  then obtain x' where run: "for_interior N (diffuse_cell N a x0) x = Some x'"
    and c: "\<And>i j. inb N i j \<Longrightarrow> (if inner N i j then relaxed N a x0 x x' i j else cell N x' i j = cell N x i j)"
    using diffuse_interior[of N x x0 a] by blast
  have 1: "cell N x' i j =
             (cell N x0 i j + a * (cell N x (i + 1) j + cell N x' (i - 1) j
                                   + cell N x i (j + 1) + cell N x' i (j - 1))) / (1 + 4 * a)"
    if "1 \<le> i \<and> i \<le> N - 2 \<and> 1 \<le> j \<and> j \<le> N - 2" for i j
    using c[of i j] that by (simp add: inb_def inner_def relaxed_def)
  have 2: "cell N x' i j = cell N x i j"
    if "0 \<le> i \<and> i < N \<and> 0 \<le> j \<and> j < N \<and> (i = 0 \<or> i = N - 1 \<or> j = 0 \<or> j = N - 1)" for i j
    using c[of i j] that by (auto simp: inb_def inner_def)
  show "\<exists>x'. for_interior N (diffuse_cell N a x0) x = Some x' \<and>
        (\<forall>i j. 1 \<le> i \<and> i \<le> N - 2 \<and> 1 \<le> j \<and> j \<le> N - 2 \<longrightarrow>
           cell N x' i j =
             (cell N x0 i j + a * (cell N x (i + 1) j + cell N x' (i - 1) j
                                   + cell N x i (j + 1) + cell N x' i (j - 1))) / (1 + 4 * a)) \<and>
        (\<forall>i j. 0 \<le> i \<and> i < N \<and> 0 \<le> j \<and> j < N \<and> (i = 0 \<or> i = N - 1 \<or> j = 0 \<or> j = N - 1) \<longrightarrow>
           cell N x' i j = cell N x i j)"
    using run 1 2 by blast
qed

theorem diffuse_sweeps_witness:
  "diffuse 3 4 0 [0, 0, 0, 0, 0, 0, 0, 0, 0] [1, 2, 3, 4, 5, 6, 7, 8, 9] (1 / 4) 1 =
     repeatM 4 (diffuse_sweep 3 0 (1 / 4) [1, 2, 3, 4, 5, 6, 7, 8, 9]) [0, 0, 0, 0, 0, 0, 0, 0, 0] \<and>
   (\<exists>x'. for_interior 3 (diffuse_cell 3 (1 / 4) [1, 2, 3, 4, 5, 6, 7, 8, 9])
            [0, 0, 0, 0, 0, 0, 0, 0, 0] = Some x' \<and>
      cell 3 x' 1 1 =
        (cell 3 [1, 2, 3, 4, 5, 6, 7, 8, 9] 1 1
         + 1 / 4 * (cell 3 [0, 0, 0, 0, 0, 0, 0, 0, 0] 2 1 + cell 3 x' 0 1
                    + cell 3 [0, 0, 0, 0, 0, 0, 0, 0, 0] 1 2 + cell 3 x' 1 0)) / 2 \<and>
      cell 3 x' 0 0 = cell 3 [0, 0, 0, 0, 0, 0, 0, 0, 0] 0 0)"
  using diffuse_sweeps[of 3 4 0 "[0, 0, 0, 0, 0, 0, 0, 0, 0]" "[1, 2, 3, 4, 5, 6, 7, 8, 9]" "1 / 4" 1 "1 / 4"]
  by (fastforce simp: sized_def)

section \<open>Lengths and the dissipation loops\<close>

lemma forM_preserves:
  assumes "forM ks body s = Some s'" and "Q s"
    and "\<And>k t t'. k \<in> set ks \<Longrightarrow> Q t \<Longrightarrow> body k t = Some t' \<Longrightarrow> Q t'"
  shows "Q s'"
  using assms
proof (induction ks arbitrary: s)
  case Nil
  then show ?case by simp
next
  case (Cons k ks)
  from Cons.prems(1) obtain t where t: "body k s = Some t" "forM ks body t = Some s'"
    by (auto split: option.splits)
  have "Q t" using Cons.prems(3)[OF _ Cons.prems(2) t(1)] by simp
  show ?case
  proof (rule Cons.IH[OF t(2) \<open>Q t\<close>])
    fix k' t1 t1' assume "k' \<in> set ks" "Q t1" "body k' t1 = Some t1'"
    then show "Q t1'" using Cons.prems(3)[of k' t1 t1'] by simp
  qed
qed

lemma for_interior_preserves:
  assumes "for_interior N body s = Some s'" and "Q s"
    and "\<And>j i t t'. Q t \<Longrightarrow> body j i t = Some t' \<Longrightarrow> Q t'"
  shows "Q s'"
proof -
  have "forM [1..N - 2] (\<lambda>j. forM [1..N - 2] (\<lambda>i. body j i)) s = Some s'"
    using assms(1) by (simp add: for_interior_def)
  then show ?thesis
  proof (rule forM_preserves[where Q = Q])
    show "Q s" by fact
    fix j t t' assume "Q t" "forM [1..N - 2] (\<lambda>i. body j i) t = Some t'"
    from forM_preserves[OF this(2), where Q = Q, OF this(1)] assms(3) show "Q t'" by blast
  qed
qed

lemma setBoundary_length:
  assumes "setBoundary N b x = Some x'"
  shows "length x' = length x"
proof -
  from assms obtain x1 x2 where
    1: "forM [1..N - 2] (setBoundary_vertical N b) x = Some x1"
    and 2: "forM [1..N - 2] (setBoundary_horizontal N b) x1 = Some x2"
    and 3: "setBoundary_corners N x2 = Some x'"
    by (auto simp: setBoundary_def split: Option.bind_splits)
  have "length x1 = length x"
    by (rule forM_preserves[OF 1, where Q = "\<lambda>t. length t = length x"])
       (auto simp: setBoundary_vertical_def Let_def split: Option.bind_splits)
  moreover have "length x2 = length x1"
    by (rule forM_preserves[OF 2, where Q = "\<lambda>t. length t = length x1"])
       (auto simp: setBoundary_horizontal_def Let_def split: Option.bind_splits)
  moreover have "length x' = length x2"
    using 3 by (auto simp: setBoundary_corners_def Let_def split: Option.bind_splits)
  ultimately show ?thesis by simp
qed

lemma advect_length:
  assumes "advect N b d d0 velocX velocY dtv = Some d'"
  shows "length d' = length d"
proof -
  from assms obtain d1 where 1: "for_interior N (advect_cell N d0 velocX velocY dtv) d = Some d1"
    and 2: "setBoundary N b d1 = Some d'"
    by (auto simp: advect_def split: Option.bind_splits)
  have "length d1 = length d"
    by (rule for_interior_preserves[OF 1, where Q = "\<lambda>t. length t = length d"])
       (auto simp: advect_cell_def Let_def split: Option.bind_splits)
  then show ?thesis using setBoundary_length[OF 2] by simp
qed

lemma project_length:
  assumes "project N iters velocX velocY p dv = Some (velocX', velocY', p', dv')"
  shows "length velocX' = length velocX \<and> length velocY' = length velocY
         \<and> length p' = length p \<and> length dv' = length dv"
proof -
  from assms obtain p1 dv1 dv2 p2 p3 vx vy where
    1: "for_interior N (project_init_cell N velocX velocY) (p, dv) = Some (p1, dv1)"
    and 2: "setBoundary N 0 dv1 = Some dv2" and 3: "setBoundary N 0 p1 = Some p2"
    and 4: "forM [0..iters - 1] (\<lambda>k. project_relax N dv2) p2 = Some p3"
    and 5: "for_interior N (project_gradient_cell N p3) (velocX, velocY) = Some (vx, vy)"
    and 6: "setBoundary N 1 vx = Some velocX'" and 7: "setBoundary N 2 vy = Some velocY'"
    and 8: "p' = p3" "dv' = dv2"
    by (auto simp: project_def split: Option.bind_splits prod.splits)
  have "length (fst (p1, dv1)) = length p \<and> length (snd (p1, dv1)) = length dv"
    by (rule for_interior_preserves[OF 1, where Q = "\<lambda>t. length (fst t) = length p \<and> length (snd t) = length dv"])
       (auto simp: project_init_cell_def split: Option.bind_splits)
  then have a: "length p1 = length p" "length dv1 = length dv" by simp_all
  have b: "length p3 = length p2"
  proof (rule forM_preserves[OF 4, where Q = "\<lambda>t. length t = length p2"])
    fix t t' assume t: "length t = length p2" and "project_relax N dv2 t = Some t'"
    then obtain t1 where r1: "for_interior N (project_relax_cell N dv2) t = Some t1"
      and r2: "setBoundary N 0 t1 = Some t'"
      by (auto simp: project_relax_def split: Option.bind_splits)
    have "length t1 = length p2"
      by (rule for_interior_preserves[OF r1, where Q = "\<lambda>t. length t = length p2"])
         (auto simp: t project_relax_cell_def split: Option.bind_splits)
    then show "length t' = length p2" using setBoundary_length[OF r2] by simp
  qed simp
  have "length (fst (vx, vy)) = length velocX \<and> length (snd (vx, vy)) = length velocY"
    by (rule for_interior_preserves[OF 5, where Q = "\<lambda>t. length (fst t) = length velocX \<and> length (snd t) = length velocY"])
       (auto simp: project_gradient_cell_def Let_def split: Option.bind_splits)
  then have c: "length vx = length velocX" "length vy = length velocY" by simp_all
  show ?thesis
    using a b c 8 setBoundary_length[OF 2] setBoundary_length[OF 3]
      setBoundary_length[OF 6] setBoundary_length[OF 7] by simp
qed

lemma scaled_upto_start: "scaled_upto c 0 x x"
  by (simp add: scaled_upto_def)

lemma scaled_upto_end: "scaled_upto c (int (length x)) x y \<Longrightarrow> y = map (\<lambda>a. a * c) x"
  by (auto simp: scaled_upto_def intro!: nth_equalityI)

lemma scaled_upto_step:
  assumes "scaled_upto c k x y" "0 \<le> k" "k < int (length x)"
  shows "rd y k = Some (x ! nat k)" and "scaled_upto c (k + 1) x (wr y k (x ! nat k * c))"
proof -
  have len: "length y = length x" and nth: "\<And>n. n < length x \<Longrightarrow> y ! n = (if int n < k then x ! n * c else x ! n)"
    using assms(1) by (auto simp: scaled_upto_def)
  have "nat k < length x" using assms(2,3) by simp
  from nth[OF this] show "rd y k = Some (x ! nat k)" using assms(2,3) len by (simp add: rd_def)
  show "scaled_upto c (k + 1) x (wr y k (x ! nat k * c))"
    unfolding scaled_upto_def
  proof (intro conjI allI impI)
    show "length (wr y k (x ! nat k * c)) = length x" using len by simp
    fix n assume n: "n < length x"
    show "wr y k (x ! nat k * c) ! n = (if int n < k + 1 then x ! n * c else x ! n)"
    proof (cases "n = nat k")
      case True
      then show ?thesis using assms(2,3) len by (simp add: wr_def)
    next
      case False
      then have "int n \<noteq> k" using assms(2) by auto
      then show ?thesis using False nth[OF n] assms(2,3) len by (auto simp: wr_def)
    qed
  qed
qed

lemma density_dissipate_loop:
  assumes "sized N x"
  shows "forM [0..N * N - 1] (densityStep_dissipate c) x = Some (map (\<lambda>a. a * c) x)"
proof -
  have L: "int (length x) = N * N" using assms by (simp add: sized_def)
  have "\<exists>y. forM [0..N * N - 1] (densityStep_dissipate c) x = Some y \<and> scaled_upto c (N * N - 1 + 1) x y"
  proof (rule forM_upto_rule[where P = "\<lambda>k y. scaled_upto c k x y"])
    show "scaled_upto c 0 x x" by (rule scaled_upto_start)
    show "0 \<le> N * N - 1 + 1" by simp
    fix k y assume k: "0 \<le> k" "k \<le> N * N - 1" and P: "scaled_upto c k x y"
    have "k < int (length x)" using k L by simp
    from scaled_upto_step[OF P k(1) this]
    show "\<exists>s'. densityStep_dissipate c k y = Some s' \<and> scaled_upto c (k + 1) x s'"
      by (simp add: densityStep_dissipate_def)
  qed
  then show ?thesis using scaled_upto_end[of c x] L by auto
qed

lemma velocity_dissipate_loop:
  assumes "sized N (u s)" "sized N (v s)"
  shows "forM [0..N * N - 1] (velocityStep_dissipate c) s
         = Some (s\<lparr>u := map (\<lambda>a. a * c) (u s), v := map (\<lambda>a. a * c) (v s)\<rparr>)"
proof -
  have L: "int (length (u s)) = N * N" "int (length (v s)) = N * N"
    using assms by (simp_all add: sized_def)
  let ?P = "\<lambda>k t. \<exists>U V. t = s\<lparr>u := U, v := V\<rparr> \<and> scaled_upto c k (u s) U \<and> scaled_upto c k (v s) V"
  have "\<exists>t. forM [0..N * N - 1] (velocityStep_dissipate c) s = Some t \<and> ?P (N * N - 1 + 1) t"
  proof (rule forM_upto_rule[where P = ?P])
    show "?P 0 s" using scaled_upto_start[of c "u s"] scaled_upto_start[of c "v s"]
      by (intro exI[of _ "u s"] exI[of _ "v s"]) simp
    show "0 \<le> N * N - 1 + 1" by simp
    fix k t assume k: "0 \<le> k" "k \<le> N * N - 1" and P: "?P k t"
    then obtain U V where t: "t = s\<lparr>u := U, v := V\<rparr>"
      and U: "scaled_upto c k (u s) U" and V: "scaled_upto c k (v s) V" by blast
    have kl: "k < int (length (u s))" "k < int (length (v s))" using k L by simp_all
    note su = scaled_upto_step[OF U k(1) kl(1)] and sv = scaled_upto_step[OF V k(1) kl(2)]
    have "velocityStep_dissipate c k t
          = Some (s\<lparr>u := wr U k (u s ! nat k * c), v := wr V k (v s ! nat k * c)\<rparr>)"
      using su(1) sv(1) by (simp add: velocityStep_dissipate_def t)
    then show "\<exists>s'. velocityStep_dissipate c k t = Some s' \<and> ?P (k + 1) s'"
      using su(2) sv(2) by blast
  qed
  then obtain t U V where "forM [0..N * N - 1] (velocityStep_dissipate c) s = Some t"
    "t = s\<lparr>u := U, v := V\<rparr>" "scaled_upto c (N * N) (u s) U" "scaled_upto c (N * N) (v s) V"
    by auto
  then show ?thesis using scaled_upto_end[of c "u s" U] scaled_upto_end[of c "v s" V] L by simp
qed

lemma sized_length: "sized N x \<Longrightarrow> length y = length x \<Longrightarrow> sized N y"
  by (simp add: sized_def)

section \<open>Evaluation on small grids\<close>

lemmas kernel_eval =
  IX_def rd_def wr_def fdiv_def for_interior_def
  setBoundary_def setBoundary_vertical_def setBoundary_horizontal_def setBoundary_corners_def
  diffuse_def diffuse_sweep_def diffuse_cell_def
  project_def project_init_cell_def divergence_cell_def project_relax_def project_relax_cell_def
  project_gradient_cell_def
  advect_def advect_cell_def clamp_coord_def backtrace_def js_result_small
  upto.simps[of 0] upto.simps[of 1] Let_def

lemmas step_eval = update_def velocityStep_def densityStep_def velocityStep_dissipate_def
  densityStep_dissipate_def

lemmas example_eval = example_params_def zeros9_def centre9_def seeded9_def dye_fluid_def push_fluid_def


lemma update_push_fluid:
  "update push_fluid = Some (push_fluid\<lparr>
      u := [0, 2475002475000 / 6250005000001, 0,
            - (2475002475000 / 6250005000001), 2475002475000 / 6250005000001,
            - (2475002475000 / 6250005000001), 0, 2475002475000 / 6250005000001, 0]\<rparr>)"
  by (simp add: example_eval step_eval kernel_eval)

lemma updateF_push_fluidF:
  "updateF push_fluidF = Some (push_fluidF\<lparr>
      uF := [0, 2500002500000 / 6250005000001, 0,
            - (2500002500000 / 6250005000001), 2500002500000 / 6250005000001,
            - (2500002500000 / 6250005000001), 0, 2500002500000 / 6250005000001, 0]\<rparr>)"
  by (simp add: example_eval push_fluidF_def updateF_def velocityStepF_def densityStepF_def
        densityStep_dissipate_def kernel_eval)

section \<open>The velocity step\<close>

lemma velocityStep_char:
  assumes "sized (sizeN s) (u s)" and "sized (sizeN s) (v s)"
  shows "velocityStep s = do {
     x1 \<leftarrow> diffuse (sizeN s) (iterations (params s)) 1 (u_prev s) (u s) (viscosity (params s)) (dt (params s));
     y1 \<leftarrow> diffuse (sizeN s) (iterations (params s)) 2 (v_prev s) (v s) (viscosity (params s)) (dt (params s));
     (x2, y2, p2, d2) \<leftarrow> project (sizeN s) (iterations (params s)) x1 y1 (u s) (v s);
     x3 \<leftarrow> advect (sizeN s) 1 p2 x2 (map Fin x2) (map Fin y2) (Fin (dt (params s)));
     y3 \<leftarrow> advect (sizeN s) 2 d2 y2 (map Fin x2) (map Fin y2) (Fin (dt (params s)));
     (x4, y4, p4, d4) \<leftarrow> project (sizeN s) (iterations (params s)) x3 y3 x2 y2;
     Some (s\<lparr>u := map (\<lambda>a. a * velocityDissipation (params s)) x4,
              v := map (\<lambda>a. a * velocityDissipation (params s)) y4,
              u_prev := p4, v_prev := d4\<rparr>)
   }"
proof -
  have fin: "forM [0..sizeN s * sizeN s - 1] (velocityStep_dissipate c)
               (s\<lparr>u := x4, v := y4, u_prev := p4, v_prev := d4\<rparr>)
             = Some (s\<lparr>u := map (\<lambda>a. a * c) x4, v := map (\<lambda>a. a * c) y4, u_prev := p4, v_prev := d4\<rparr>)"
    if "project (sizeN s) k x3 y3 x2 y2 = Some (x4, y4, p4, d4)"
      "advect (sizeN s) 1 p2 x2 (map Fin x2) (map Fin y2) (Fin e) = Some x3"
      "advect (sizeN s) 2 d2 y2 (map Fin x2) (map Fin y2) (Fin e) = Some y3"
      "project (sizeN s) k x1 y1 (u s) (v s) = Some (x2, y2, p2, d2)"
    for c k e x1 y1 x2 y2 p2 d2 x3 y3 x4 y4 p4 d4
  proof -
    have "length x4 = length (u s)" "length y4 = length (v s)"
      using project_length[OF that(1)] advect_length[OF that(2)] advect_length[OF that(3)]
        project_length[OF that(4)] by simp_all
    then have "sized (sizeN s) x4" "sized (sizeN s) y4" using assms by (auto intro: sized_length)
    then show ?thesis
      using velocity_dissipate_loop[of "sizeN s" "s\<lparr>u := x4, v := y4, u_prev := p4, v_prev := d4\<rparr>" c]
      by simp
  qed
  show ?thesis
    unfolding velocityStep_def Let_def
    by (auto split: Option.bind_split prod.split intro: fin)
qed



section \<open>The density total\<close>

lemma densityStep_char:
  assumes "sized (sizeN s) (density s)"
  shows "densityStep s = do {
     x \<leftarrow> diffuse (sizeN s) (iterations (params s)) 0 (density_prev s) (density s)
           (diffusion (params s)) (dt (params s));
     d \<leftarrow> advect (sizeN s) 0 (density s) x (map Fin (u s)) (map Fin (v s)) (Fin (dt (params s)));
     Some (s\<lparr>density := map (\<lambda>a. a * densityDissipation (params s)) d, density_prev := x\<rparr>)
   }"
proof -
  have fin: "forM [0..sizeN s * sizeN s - 1] (densityStep_dissipate c) d = Some (map (\<lambda>a. a * c) d)"
    if "advect (sizeN s) 0 (density s) x (map Fin (u s)) (map Fin (v s)) (Fin e) = Some d" for c d e x
    using density_dissipate_loop[of "sizeN s" d c] advect_length[OF that] assms
    by (simp add: sized_def)
  show ?thesis
    unfolding densityStep_def Let_def
    by (auto split: Option.bind_split simp: fin)
qed

lemma forM_total:
  assumes "Q s" and "\<And>k t. k \<in> set ks \<Longrightarrow> Q t \<Longrightarrow> \<exists>t'. body k t = Some t' \<and> Q t'"
  shows "\<exists>s'. forM ks body s = Some s' \<and> Q s'"
  using assms
proof (induction ks arbitrary: s)
  case Nil
  then show ?case by simp
next
  case (Cons k ks)
  from Cons.prems(2)[of k s] Cons.prems(1) obtain t where t: "body k s = Some t" "Q t" by auto
  have "\<exists>s'. forM ks body t = Some s' \<and> Q s'"
    by (rule Cons.IH[OF t(2)]) (use Cons.prems(2) in auto)
  then show ?case using t(1) by simp
qed

lemma diffuse_total:
  assumes N: "3 \<le> N" and s: "sized N x" "sized N x0" and a: "0 \<le> dtv" "0 \<le> rate"
  shows "\<exists>x'. diffuse N iters b x x0 rate dtv = Some x' \<and> sized N x'"
proof -
  let ?a = "dtv * rate * real_of_int (N - 2) * real_of_int (N - 2)"
  have "?a = (dtv * rate) * (real_of_int (N - 2) * real_of_int (N - 2))" by simp
  moreover have "0 \<le> (dtv * rate) * (real_of_int (N - 2) * real_of_int (N - 2))"
    using a N by (intro mult_nonneg_nonneg) simp_all
  ultimately have "0 \<le> ?a" by simp
  then have a4: "1 + 4 * ?a \<noteq> 0" by linarith
  have "\<exists>x'. forM [0..iters - 1] (\<lambda>k. diffuse_sweep N b ?a x0) x = Some x' \<and> sized N x'"
  proof (rule forM_total[where Q = "sized N"])
    show "sized N x" by fact
    fix k and t :: field assume t: "sized N t"
    from diffuse_interior[OF N t s(2) a4] obtain t1 where
      1: "for_interior N (diffuse_cell N ?a x0) t = Some t1" "sized N t1" by blast
    from setBoundary_char[OF N 1(2), of b] 1(1)
    show "\<exists>t'. diffuse_sweep N b ?a x0 t = Some t' \<and> sized N t'"
      by (auto simp: diffuse_sweep_def)
  qed
  then show ?thesis by (simp add: diffuse_def)
qed

lemma project_total:
  assumes N: "3 \<le> N" and s: "sized N velocX" "sized N velocY" "sized N p" "sized N dv"
  shows "\<exists>velocX' velocY' p' dv'. project N iters velocX velocY p dv = Some (velocX', velocY', p', dv')
           \<and> sized N velocX' \<and> sized N velocY' \<and> sized N p' \<and> sized N dv'"
proof -
  have "\<exists>t. for_interior N (project_init_cell N velocX velocY) (p, dv) = Some t
            \<and> sized N (fst t) \<and> sized N (snd t)"
  proof (rule for_interior_inv)
    show "2 \<le> N" using N by simp
    show "sized N (fst (p, dv)) \<and> sized N (snd (p, dv))" using s by simp
    fix j i and t :: "field \<times> field"
    assume inn: "inner N i j" and t: "sized N (fst t) \<and> sized N (snd t)"
    note nb = inner_inb[OF inn]
    show "\<exists>s'. project_init_cell N velocX velocY j i t = Some s' \<and> sized N (fst s') \<and> sized N (snd s')"
      using nb s t N
      by (cases t) (simp add: project_init_cell_def divergence_cell_def IX_floor fdiv_def)
  qed
  then obtain p1 dv1 where 1: "for_interior N (project_init_cell N velocX velocY) (p, dv) = Some (p1, dv1)"
    and s1: "sized N p1" "sized N dv1" by auto
  from setBoundary_char[OF N s1(2), of 0] obtain dv2 where 2: "setBoundary N 0 dv1 = Some dv2" "sized N dv2"
    by blast
  from setBoundary_char[OF N s1(1), of 0] obtain p2 where 3: "setBoundary N 0 p1 = Some p2" "sized N p2"
    by blast
  have "\<exists>p3. forM [0..iters - 1] (\<lambda>k. project_relax N dv2) p2 = Some p3 \<and> sized N p3"
  proof (rule forM_total[where Q = "sized N"])
    show "sized N p2" by fact
    fix k and t :: field assume t: "sized N t"
    have "\<exists>t1. for_interior N (project_relax_cell N dv2) t = Some t1 \<and> sized N t1"
    proof (rule for_interior_inv)
      show "2 \<le> N" using N by simp
      show "sized N t" by fact
      fix j i and t2 :: field assume inn: "inner N i j" and t2: "sized N t2"
      note nb = inner_inb[OF inn]
      show "\<exists>s'. project_relax_cell N dv2 j i t2 = Some s' \<and> sized N s'"
        using nb 2(2) t2 by (simp add: project_relax_cell_def IX_floor)
    qed
    then obtain t1 where r: "for_interior N (project_relax_cell N dv2) t = Some t1" "sized N t1" by blast
    from setBoundary_char[OF N r(2), of 0] r(1)
    show "\<exists>t'. project_relax N dv2 t = Some t' \<and> sized N t'"
      by (auto simp: project_relax_def)
  qed
  then obtain p3 where 4: "forM [0..iters - 1] (\<lambda>k. project_relax N dv2) p2 = Some p3" "sized N p3"
    by blast
  have "\<exists>t. for_interior N (project_gradient_cell N p3) (velocX, velocY) = Some t
            \<and> sized N (fst t) \<and> sized N (snd t)"
  proof (rule for_interior_inv)
    show "2 \<le> N" using N by simp
    show "sized N (fst (velocX, velocY)) \<and> sized N (snd (velocX, velocY))" using s by simp
    fix j i and t :: "field \<times> field"
    assume inn: "inner N i j" and t: "sized N (fst t) \<and> sized N (snd t)"
    note nb = inner_inb[OF inn]
    show "\<exists>s'. project_gradient_cell N p3 j i t = Some s' \<and> sized N (fst s') \<and> sized N (snd s')"
      using nb 4(2) t
      by (cases t) (simp add: project_gradient_cell_def IX_floor Let_def)
  qed
  then obtain vx vy where 5: "for_interior N (project_gradient_cell N p3) (velocX, velocY) = Some (vx, vy)"
    and s5: "sized N vx" "sized N vy" by auto
  from setBoundary_char[OF N s5(1), of 1] obtain vx' where 6: "setBoundary N 1 vx = Some vx'" "sized N vx'"
    by blast
  from setBoundary_char[OF N s5(2), of 2] obtain vy' where 7: "setBoundary N 2 vy = Some vy'" "sized N vy'"
    by blast
  show ?thesis using 1 2 3 4 5 6 7 by (simp add: project_def)
qed

lemma velocityStep_total:
  assumes "wellformed s"
  shows "\<exists>t. velocityStep s = Some t \<and> wellformed t \<and> density t = density s
            \<and> density_prev t = density_prev s \<and> sizeN t = sizeN s \<and> params t = params s"
proof -
  let ?N = "sizeN s" and ?it = "iterations (params s)"
  have N: "3 \<le> ?N" and sz: "sized ?N (u s)" "sized ?N (v s)" "sized ?N (u_prev s)" "sized ?N (v_prev s)"
    "sized ?N (density s)" "sized ?N (density_prev s)"
    and pos: "0 \<le> dt (params s)" "0 \<le> diffusion (params s)" "0 \<le> viscosity (params s)"
    and fin: "dt (params s) * real_of_int ?N < overflow_bound"
    using assms by (auto simp: wellformed_def)
  have "0 \<le> dt (params s) * real_of_int ?N" using pos(1) N by simp
  then have ovf: "\<bar>dt (params s) * real_of_int ?N\<bar> < overflow_bound" using fin by simp
  from diffuse_total[OF N sz(3) sz(1) pos(1) pos(3), of ?it 1] obtain x1 where
    1: "diffuse ?N ?it 1 (u_prev s) (u s) (viscosity (params s)) (dt (params s)) = Some x1" "sized ?N x1"
    by blast
  from diffuse_total[OF N sz(4) sz(2) pos(1) pos(3), of ?it 2] obtain y1 where
    2: "diffuse ?N ?it 2 (v_prev s) (v s) (viscosity (params s)) (dt (params s)) = Some y1" "sized ?N y1"
    by blast
  from project_total[OF N 1(2) 2(2) sz(1) sz(2), of ?it] obtain x2 y2 p2 d2 where
    3: "project ?N ?it x1 y1 (u s) (v s) = Some (x2, y2, p2, d2)"
    "sized ?N x2" "sized ?N y2" "sized ?N p2" "sized ?N d2" by blast
  from advect_total_fin[OF N 3(4) 3(2) 3(2) 3(3) ovf, of 1] obtain x3 where
    4: "advect ?N 1 p2 x2 (map Fin x2) (map Fin y2) (Fin (dt (params s))) = Some x3" "sized ?N x3" by blast
  from advect_total_fin[OF N 3(5) 3(3) 3(2) 3(3) ovf, of 2] obtain y3 where
    5: "advect ?N 2 d2 y2 (map Fin x2) (map Fin y2) (Fin (dt (params s))) = Some y3" "sized ?N y3" by blast
  from project_total[OF N 4(2) 5(2) 3(2) 3(3), of ?it] obtain x4 y4 p4 d4 where
    6: "project ?N ?it x3 y3 x2 y2 = Some (x4, y4, p4, d4)"
    "sized ?N x4" "sized ?N y4" "sized ?N p4" "sized ?N d4" by blast
  have "velocityStep s = Some (s\<lparr>u := map (\<lambda>a. a * velocityDissipation (params s)) x4,
              v := map (\<lambda>a. a * velocityDissipation (params s)) y4,
              u_prev := p4, v_prev := d4\<rparr>)"
    unfolding velocityStep_char[OF sz(1,2)] using 1 2 3 4 5 6 by simp
  moreover have "sized ?N (map f x4)" "sized ?N (map f y4)" for f
    using 6(2,3) by (simp_all add: sized_def)
  ultimately show ?thesis using N sz pos fin 6 by (simp add: wellformed_def)
qed

lemma densityStep_total:
  assumes "wellformed s"
  shows "\<exists>t. densityStep s = Some t \<and> wellformed t"
proof -
  let ?N = "sizeN s" and ?it = "iterations (params s)"
  have N: "3 \<le> ?N" and sz: "sized ?N (u s)" "sized ?N (v s)" "sized ?N (u_prev s)" "sized ?N (v_prev s)"
    "sized ?N (density s)" "sized ?N (density_prev s)"
    and pos: "0 \<le> dt (params s)" "0 \<le> diffusion (params s)" "0 \<le> viscosity (params s)"
    and fin: "dt (params s) * real_of_int ?N < overflow_bound"
    using assms by (auto simp: wellformed_def)
  have "0 \<le> dt (params s) * real_of_int ?N" using pos(1) N by simp
  then have ovf: "\<bar>dt (params s) * real_of_int ?N\<bar> < overflow_bound" using fin by simp
  from diffuse_total[OF N sz(6) sz(5) pos(1) pos(2), of ?it 0] obtain x where
    1: "diffuse ?N ?it 0 (density_prev s) (density s) (diffusion (params s)) (dt (params s)) = Some x"
    "sized ?N x" by blast
  from advect_total_fin[OF N sz(5) 1(2) sz(1) sz(2) ovf, of 0] obtain d where
    2: "advect ?N 0 (density s) x (map Fin (u s)) (map Fin (v s)) (Fin (dt (params s))) = Some d" "sized ?N d" by blast
  have "densityStep s = Some (s\<lparr>density := map (\<lambda>a. a * densityDissipation (params s)) d,
                                  density_prev := x\<rparr>)"
    unfolding densityStep_char[OF sz(5)] using 1 2 by simp
  moreover have "sized ?N (map f d)" for f using 2(2) by (simp add: sized_def)
  ultimately show ?thesis using N sz pos fin 1(2) by (simp add: wellformed_def)
qed

lemma update_total:
  assumes "wellformed s"
  shows "\<exists>s'. update s = Some s' \<and> wellformed s'"
proof -
  from velocityStep_total[OF assms] obtain t where t: "velocityStep s = Some t" "wellformed t" by blast
  from densityStep_total[OF t(2)] t(1) show ?thesis by (auto simp: update_def)
qed




section \<open>The two variants\<close>

lemma map_times_one: "map (\<lambda>a. a * (1::real)) x = x"
  by (induction x) simp_all

lemma velocityStepF_char:
  "velocityStepF f = do {
     x1 \<leftarrow> diffuse (sizeF f) (iterationsF f) 1 (u_prevF f) (uF f) (viscosityF f) (dtF f);
     y1 \<leftarrow> diffuse (sizeF f) (iterationsF f) 2 (v_prevF f) (vF f) (viscosityF f) (dtF f);
     (x2, y2, p2, d2) \<leftarrow> project (sizeF f) (iterationsF f) x1 y1 (uF f) (vF f);
     x3 \<leftarrow> advect (sizeF f) 1 p2 x2 (map Fin x2) (map Fin y2) (Fin (dtF f));
     y3 \<leftarrow> advect (sizeF f) 2 d2 y2 (map Fin x2) (map Fin y2) (Fin (dtF f));
     (x4, y4, p4, d4) \<leftarrow> project (sizeF f) (iterationsF f) x3 y3 x2 y2;
     Some (f\<lparr>uF := x4, vF := y4, u_prevF := p4, v_prevF := d4\<rparr>)
   }"
  unfolding velocityStepF_def Let_def
  by (auto split: Option.bind_split prod.split)

lemma velocity_steps_agree:
  assumes "same_config f s" "arraysF f = arrays s" "velocityDissipation (params s) = 1"
    and "sized (sizeN s) (u s)" "sized (sizeN s) (v s)"
  shows "rel_option (\<lambda>f' s'. same_config f' s' \<and> arraysF f' = arrays s' \<and> params s' = params s)
           (velocityStepF f) (velocityStep s)"
  unfolding velocityStep_char[OF assms(4,5)] velocityStepF_char
  using assms(1,2,3)
  by (auto simp: same_config_def arrays_def arraysF_def map_times_one
           split: Option.bind_split prod.split)

lemma density_steps_agree:
  assumes "same_config f s" "arraysF f = arrays s" "densityDissipation (params s) = 0.99"
  shows "rel_option (\<lambda>f' s'. arraysF f' = arrays s') (densityStepF f) (densityStep s)"
  unfolding densityStep_def densityStepF_def Let_def
  using assms(1,2)
  by (auto simp: assms(3) same_config_def arrays_def arraysF_def split: Option.bind_split prod.split)

text \<open>
  Claim C8, amended. On arrays of \<open>N * N\<close> cells, one update of the fixed variant gives the
  arrays of one update of the tunable variant configured with \<open>densityDissipation = 0.99\<close> and
  \<open>velocityDissipation = 1\<close> and the same \<open>dt\<close>, \<open>diffusion\<close>, \<open>viscosity\<close> and
  \<open>iterations\<close>: the fixed variant does not damp the velocity.
\<close>

theorem fixed_variant_special_case:
  assumes "same_config f s" and "arraysF f = arrays s"
    and "densityDissipation (params s) = 0.99" and "velocityDissipation (params s) = 1"
    and "sized (sizeN s) (u s)" and "sized (sizeN s) (v s)"
  shows "map_option arraysF (updateF f) = map_option arrays (update s)"
proof -
  note v = velocity_steps_agree[OF assms(1,2,4,5,6)]
  show ?thesis
  proof (cases "velocityStep s")
    case None
    with v have "velocityStepF f = None" by (cases "velocityStepF f") simp_all
    with None show ?thesis by (simp add: update_def updateF_def)
  next
    case (Some t)
    with v obtain g where g: "velocityStepF f = Some g" "same_config g t" "arraysF g = arrays t"
      "params t = params s"
      by (cases "velocityStepF f") auto
    have "densityDissipation (params t) = 0.99" using assms(3) g(4) by simp
    from density_steps_agree[OF g(2,3) this]
    have "map_option arraysF (densityStepF g) = map_option arrays (densityStep t)"
      by (cases "densityStepF g"; cases "densityStep t") simp_all
    then show ?thesis using Some g(1) by (simp add: update_def updateF_def)
  qed
qed

theorem fixed_variant_special_case_witness:
  "map_option arraysF (updateF push_fluidF)
   = map_option arrays (update (push_fluid\<lparr>params := example_params\<lparr>velocityDissipation := 1\<rparr>\<rparr>))"
  using fixed_variant_special_case[of push_fluidF "push_fluid\<lparr>params := example_params\<lparr>velocityDissipation := 1\<rparr>\<rparr>"]
  by (simp add: same_config_def arrays_def arraysF_def push_fluid_def push_fluidF_def
        example_params_def sized_def zeros9_def centre9_def)

text \<open>
  Claim C8 as stated, with \<open>velocityDissipation = 0.99\<close>, fails on the \<open>3 \<times> 3\<close> grid with
  \<open>u = 1\<close> in the middle cell: the two variants return different \<open>u\<close>.
\<close>

theorem fixed_variant_counterexample:
  "same_config push_fluidF push_fluid \<and> arraysF push_fluidF = arrays push_fluid \<and>
   densityDissipation (params push_fluid) = 0.99 \<and> velocityDissipation (params push_fluid) = 0.99 \<and>
   map_option arraysF (updateF push_fluidF) \<noteq> map_option arrays (update push_fluid)"
  unfolding update_push_fluid updateF_push_fluidF
  by (simp add: same_config_def arrays_def arraysF_def push_fluid_def push_fluidF_def
        example_params_def)

section \<open>Construction\<close>







section \<open>Projection\<close>





















section \<open>Force injection\<close>

lemma less_sqrt_iff: "0 \<le> r \<Longrightarrow> r < sqrt x \<longleftrightarrow> r\<^sup>2 < x"
  using real_sqrt_less_iff[of "r\<^sup>2" x] by simp

lemma addForce_cell_skip:
  assumes "0 \<le> radius" and "radius\<^sup>2 < i * i + j * j"
  shows "addForce_cell N radius gridX gridY amountX amountY i j s = Some s"
  using assms by (simp add: addForce_cell_def less_sqrt_iff)

lemma addForce_cell_hit:
  assumes "0 < radius" and "i * i + j * j \<le> radius\<^sup>2"
  shows "addForce_cell N radius gridX gridY amountX amountY i j s = do {
        let influence = 1 - sqrt (i * i + j * j) / radius;
        let idx = IX N (min (N - 1) (max 0 (gridX + i))) (min (N - 1) (max 0 (gridY + j)));
        a \<leftarrow> rd (u s) idx;
        let s = s\<lparr>u := wr (u s) idx (a + amountX * influence)\<rparr>;
        c \<leftarrow> rd (v s) idx;
        let s = s\<lparr>v := wr (v s) idx (c + amountY * influence)\<rparr>;
        e \<leftarrow> rd (density s) idx;
        Some (s\<lparr>density := wr (density s) idx (e + 100 * influence)\<rparr>)
      }"
proof -
  have "\<not> radius < sqrt (i * i + j * j)" using assms by (simp add: less_sqrt_iff)
  then show ?thesis using assms(1) by (simp add: addForce_cell_def fdiv_def Let_def)
qed

lemma for_real_unfold:
  "i \<le> hi \<Longrightarrow> for_real i hi body s = (case body i s of None \<Rightarrow> None | Some s' \<Rightarrow> for_real (i + 1) hi body s')"
  "\<not> i \<le> hi \<Longrightarrow> for_real i hi body s = Some s"
  by (simp_all add: for_real.simps)

lemmas addForce_eval = addForce_def fdiv_def for_real_unfold
      addForce_cell_skip addForce_cell_hit power2_eq_square IX_def rd_def wr_def Let_def

lemma addForce_fractional:
  "addForce 3 3 0 0 1 0 (brush (6 / 5)) =
     Some ((brush (6 / 5))\<lparr>
       u := [1 - sqrt (2 / 25) / (6 / 5), 1 - sqrt (17 / 25) / (6 / 5), 0,
             1 - sqrt (17 / 25) / (6 / 5), 1 - sqrt (32 / 25) / (6 / 5), 0, 0, 0, 0],
       density := [100 * (1 - sqrt (2 / 25) / (6 / 5)), 100 * (1 - sqrt (17 / 25) / (6 / 5)), 0,
             100 * (1 - sqrt (17 / 25) / (6 / 5)), 100 * (1 - sqrt (32 / 25) / (6 / 5)), 0, 0, 0, 0]\<rparr>)"
  by (simp add: brush_def zeros9_def addForce_eval)

lemma for_real_int_rule:
  assumes "P a s" "a \<le> b + 1"
    and step: "\<And>k s. a \<le> k \<Longrightarrow> k \<le> b \<Longrightarrow> P k s \<Longrightarrow> \<exists>s'. body (real_of_int k) s = Some s' \<and> P (k + 1) s'"
  shows "\<exists>s'. for_real (real_of_int a) (real_of_int b) body s = Some s' \<and> P (b + 1) s'"
  using assms
proof (induction "nat (b + 1 - a)" arbitrary: a s)
  case 0
  then have "a = b + 1" by simp
  with 0 show ?case by (simp add: for_real.simps)
next
  case (Suc n)
  then have ab: "a \<le> b" by simp
  from Suc.prems(3)[OF _ ab Suc.prems(1)] obtain s1 where
    s1: "body (real_of_int a) s = Some s1" "P (a + 1) s1" by auto
  have "\<exists>s'. for_real (real_of_int (a + 1)) (real_of_int b) body s1 = Some s' \<and> P (b + 1) s'"
  proof (rule Suc.hyps(1))
    show "n = nat (b + 1 - (a + 1))" using Suc.hyps(2) by simp
    show "P (a + 1) s1" by fact
    show "a + 1 \<le> b + 1" using ab by simp
    show "\<And>k s. a + 1 \<le> k \<Longrightarrow> k \<le> b \<Longrightarrow> P k s \<Longrightarrow> \<exists>s'. body (real_of_int k) s = Some s' \<and> P (k + 1) s'"
      using Suc.prems(3) by simp
  qed
  moreover have "for_real (real_of_int a) (real_of_int b) body s
                 = for_real (real_of_int (a + 1)) (real_of_int b) body s1"
    using ab s1(1) by (subst for_real.simps) simp
  ultimately show ?case by simp
qed

lemma clamp_near:
  fixes g k :: int
  assumes "1 \<le> N"
  shows "(min (N - 1) (max 0 (g + k)) - clamp_index N g)\<^sup>2 \<le> k\<^sup>2"
proof -
  have "\<bar>min (N - 1) (max 0 (g + k)) - min (N - 1) (max 0 g)\<bar> \<le> \<bar>k\<bar>" using assms by auto
  then show ?thesis unfolding clamp_index_def by (simp only: abs_le_square_iff)
qed

lemma clamp_inb:
  assumes "1 \<le> N"
  shows "inb N (min (N - 1) (max 0 a)) (min (N - 1) (max 0 b))"
  using assms by (auto simp: inb_def)

lemma influence_bounds:
  fixes k l r :: int
  assumes "1 \<le> r" "k\<^sup>2 + l\<^sup>2 \<le> r\<^sup>2"
  shows "0 \<le> 1 - sqrt (real_of_int k * real_of_int k + real_of_int l * real_of_int l) / real_of_int r"
proof -
  have "real_of_int k * real_of_int k + real_of_int l * real_of_int l = real_of_int (k\<^sup>2 + l\<^sup>2)"
    by (simp add: power2_eq_square)
  also have "\<dots> \<le> real_of_int (r\<^sup>2)" using assms(2) by (simp only: of_int_le_iff)
  finally have "sqrt (real_of_int k * real_of_int k + real_of_int l * real_of_int l) \<le> real_of_int r"
    using assms(1) by (intro real_le_lsqrt) (simp_all add: power2_eq_square)
  then show ?thesis using assms(1) by simp
qed

lemma addForce_cell_inv:
  assumes r: "1 \<le> r" and c: "1 \<le> N" and kl: "- r \<le> k" "k \<le> r" "- r \<le> l" "l \<le> r"
    and inv: "force_inv N r gx gy ax ay s k l t"
  shows "\<exists>t'. addForce_cell N (real_of_int r) gx gy ax ay (real_of_int k) (real_of_int l) t = Some t'
              \<and> force_inv N r gx gy ax ay s k (l + 1) t'"
proof (cases "r\<^sup>2 < k\<^sup>2 + l\<^sup>2")
  case True
  then have "real_of_int (r\<^sup>2) < real_of_int (k\<^sup>2 + l\<^sup>2)" by (simp only: of_int_less_iff)
  then have "(real_of_int r)\<^sup>2 < real_of_int k * real_of_int k + real_of_int l * real_of_int l"
    by (simp add: power2_eq_square)
  then have run: "addForce_cell N (real_of_int r) gx gy ax ay (real_of_int k) (real_of_int l) t = Some t"
    using r by (intro addForce_cell_skip) simp_all
  have "\<not> (k = 0 \<and> l = 0)" using True by (auto simp: power2_eq_square)
  then have "seen_centre k (l + 1) = seen_centre k l" by (auto simp: seen_centre_def)
  then show ?thesis using run inv by (simp add: force_inv_def)
next
  case False
  then have le: "k\<^sup>2 + l\<^sup>2 \<le> r\<^sup>2" by simp
  define cx where "cx = clamp_index N gx"
  define cy where "cy = clamp_index N gy"
  define w0 where "w0 = 1 - sqrt (real_of_int k * real_of_int k + real_of_int l * real_of_int l) / real_of_int r"
  define a0 where "a0 = min (N - 1) (max 0 (gx + k))"
  define b0 where "b0 = min (N - 1) (max 0 (gy + l))"
  have w0: "0 \<le> w0" unfolding w0_def by (rule influence_bounds[OF r le])
  have t0: "inb N a0 b0" unfolding a0_def b0_def by (rule clamp_inb[OF c])
  have sz: "sized N (u t)" "sized N (v t)" "sized N (density t)"
    and cells: "\<And>a b. inb N a b \<Longrightarrow> \<exists>w. deposited N ax ay s t a b w \<and> 0 \<le> w \<and>
        (r\<^sup>2 < (a - cx)\<^sup>2 + (b - cy)\<^sup>2 \<longrightarrow> w = 0) \<and>
        (a = cx \<and> b = cy \<longrightarrow> (seen_centre k l \<longrightarrow> 1 \<le> w) \<and>
           (0 < a \<and> a < N - 1 \<and> 0 < b \<and> b < N - 1 \<longrightarrow>
              w = (if seen_centre k l then 1 else 0)))"
    using inv by (auto simp: force_inv_def cx_def cy_def)
  define t' where "t' = t\<lparr>u := wr (u t) (ix N a0 b0) (cell N (u t) a0 b0 + ax * w0),
                          v := wr (v t) (ix N a0 b0) (cell N (v t) a0 b0 + ay * w0),
                          density := wr (density t) (ix N a0 b0) (cell N (density t) a0 b0 + 100 * w0)\<rparr>"
  have "real_of_int a0 = min (real_of_int (N - 1)) (max 0 (real_of_int (gx + k)))"
    "real_of_int b0 = min (real_of_int (N - 1)) (max 0 (real_of_int (gy + l)))"
    unfolding a0_def b0_def by (simp_all only: of_int_min of_int_max of_int_0)
  then have px: "min (real_of_int N - 1) (max 0 (real_of_int gx + real_of_int k)) = real_of_int a0"
    "min (real_of_int N - 1) (max 0 (real_of_int gy + real_of_int l)) = real_of_int b0"
    by simp_all
  have "real_of_int (k\<^sup>2 + l\<^sup>2) \<le> real_of_int (r\<^sup>2)" using le by (simp only: of_int_le_iff)
  then have "real_of_int k * real_of_int k + real_of_int l * real_of_int l \<le> (real_of_int r)\<^sup>2"
    by (simp add: power2_eq_square)
  then have run: "addForce_cell N (real_of_int r) gx gy ax ay (real_of_int k) (real_of_int l) t = Some t'"
    using r sz t0
    by (subst addForce_cell_hit) (simp_all add: Let_def px IX_floor t'_def w0_def)
  have near: "(a0 - cx)\<^sup>2 + (b0 - cy)\<^sup>2 \<le> r\<^sup>2"
    using clamp_near[OF c, of gx k] clamp_near[OF c, of gy l] le
    unfolding a0_def b0_def cx_def cy_def by linarith
  have origin: "a0 = cx \<and> b0 = cy \<and> w0 = 1" if "k = 0 \<and> l = 0"
    using that by (simp add: a0_def b0_def w0_def cx_def cy_def clamp_index_def)
  have only_origin: "k = 0 \<and> l = 0"
    if "a0 = cx" "b0 = cy" "0 < a0 \<and> a0 < N - 1 \<and> 0 < b0 \<and> b0 < N - 1"
    using that unfolding a0_def b0_def cx_def cy_def clamp_index_def
    by (auto simp: min_def max_def split: if_splits)
  have seen: "seen_centre k (l + 1) = (seen_centre k l \<or> (k = 0 \<and> l = 0))"
    by (auto simp: seen_centre_def)
  have not_before: "\<not> seen_centre k l" if "k = 0 \<and> l = 0" using that by (simp add: seen_centre_def)
  have upd: "cell N (u t') a b = (if a = a0 \<and> b = b0 then cell N (u t) a0 b0 + ax * w0 else cell N (u t) a b)"
    "cell N (v t') a b = (if a = a0 \<and> b = b0 then cell N (v t) a0 b0 + ay * w0 else cell N (v t) a b)"
    "cell N (density t') a b = (if a = a0 \<and> b = b0 then cell N (density t) a0 b0 + 100 * w0 else cell N (density t) a b)"
    if "inb N a b" for a b
    using that sz t0 by (simp_all add: t'_def cell_wr)
  have "\<exists>w. deposited N ax ay s t' a b w \<and> 0 \<le> w \<and>
        (r\<^sup>2 < (a - cx)\<^sup>2 + (b - cy)\<^sup>2 \<longrightarrow> w = 0) \<and>
        (a = cx \<and> b = cy \<longrightarrow> (seen_centre k (l + 1) \<longrightarrow> 1 \<le> w) \<and>
           (0 < a \<and> a < N - 1 \<and> 0 < b \<and> b < N - 1 \<longrightarrow>
              w = (if seen_centre k (l + 1) then 1 else 0)))"
    if ab: "inb N a b" for a b
  proof -
    from cells[OF ab] obtain w where w: "deposited N ax ay s t a b w" "0 \<le> w"
      "r\<^sup>2 < (a - cx)\<^sup>2 + (b - cy)\<^sup>2 \<longrightarrow> w = 0"
      "a = cx \<and> b = cy \<longrightarrow> (seen_centre k l \<longrightarrow> 1 \<le> w) \<and>
           (0 < a \<and> a < N - 1 \<and> 0 < b \<and> b < N - 1 \<longrightarrow> w = (if seen_centre k l then 1 else 0))"
      by blast
    show ?thesis
    proof (cases "a = a0 \<and> b = b0")
      case hit: True
      have d: "deposited N ax ay s t' a b (w + w0)"
        using w(1) upd[OF ab] hit by (simp add: deposited_def algebra_simps)
      have far: "\<not> r\<^sup>2 < (a - cx)\<^sup>2 + (b - cy)\<^sup>2" using near hit by simp
      have c1: "1 \<le> w + w0" if "a = cx \<and> b = cy" "seen_centre k (l + 1)"
      proof (cases "k = 0 \<and> l = 0")
        case True
        then show ?thesis using origin w(2) by simp
      next
        case False
        then have "seen_centre k l" using that(2) seen by blast
        then show ?thesis using w(4) that(1) w0 by simp
      qed
      have c2: "w + w0 = (if seen_centre k (l + 1) then 1 else 0)"
        if "a = cx \<and> b = cy" "0 < a \<and> a < N - 1 \<and> 0 < b \<and> b < N - 1"
      proof -
        have o: "k = 0 \<and> l = 0" using only_origin that hit by simp
        then have "w = 0" using w(4) that not_before by simp
        then show ?thesis using o origin seen by simp
      qed
      show ?thesis
        using d w(2) w0 far c1 c2 by (intro exI[of _ "w + w0"]) auto
    next
      case miss: False
      have d: "deposited N ax ay s t' a b w"
        using w(1) upd[OF ab] miss by (auto simp: deposited_def)
      have same: "seen_centre k (l + 1) = seen_centre k l" if "a = cx \<and> b = cy"
      proof -
        have "\<not> (k = 0 \<and> l = 0)" using origin miss that by auto
        then show ?thesis using seen by blast
      qed
      show ?thesis
        using d w(2,3,4) same by (intro exI[of _ w]) auto
    qed
  qed
  then have "force_inv N r gx gy ax ay s k (l + 1) t'"
    using sz by (simp add: force_inv_def t'_def cx_def cy_def)
  then show ?thesis using run by blast
qed

lemma force_inv_row: "0 \<le> r \<Longrightarrow> force_inv N r gx gy ax ay s k (r + 1) t = force_inv N r gx gy ax ay s (k + 1) (- r) t"
proof -
  assume "0 \<le> r"
  then have "seen_centre k (r + 1) = seen_centre (k + 1) (- r)" by (auto simp: seen_centre_def)
  then show ?thesis by (simp add: force_inv_def)
qed

lemma addForce_loops:
  assumes r: "1 \<le> r" and c: "1 \<le> N"
    and s: "sized N (u s)" "sized N (v s)" "sized N (density s)"
  shows "\<exists>t. for_real (- real_of_int r) (real_of_int r)
               (\<lambda>i. for_real (- real_of_int r) (real_of_int r)
                      (\<lambda>j. addForce_cell N (real_of_int r) gx gy ax ay i j)) s = Some t
             \<and> force_inv N r gx gy ax ay s (r + 1) (- r) t"
proof -
  have m: "- real_of_int r = real_of_int (- r)" by simp
  have start: "force_inv N r gx gy ax ay s (- r) (- r) s"
    unfolding force_inv_def
  proof (intro conjI allI impI)
    fix a b assume "inb N a b"
    have "\<not> seen_centre (- r) (- r)" using r by (simp add: seen_centre_def)
    then show "\<exists>w. deposited N ax ay s s a b w \<and> 0 \<le> w \<and>
        (r\<^sup>2 < (a - clamp_index N gx)\<^sup>2 + (b - clamp_index N gy)\<^sup>2 \<longrightarrow> w = 0) \<and>
        (a = clamp_index N gx \<and> b = clamp_index N gy \<longrightarrow> (seen_centre (- r) (- r) \<longrightarrow> 1 \<le> w) \<and>
           (0 < a \<and> a < N - 1 \<and> 0 < b \<and> b < N - 1 \<longrightarrow>
              w = (if seen_centre (- r) (- r) then 1 else 0)))"
      by (intro exI[of _ 0]) (simp add: deposited_def)
  qed (use s in auto)
  have "\<exists>t. for_real (real_of_int (- r)) (real_of_int r)
               (\<lambda>i. for_real (real_of_int (- r)) (real_of_int r)
                      (\<lambda>j. addForce_cell N (real_of_int r) gx gy ax ay i j)) s = Some t
             \<and> force_inv N r gx gy ax ay s (r + 1) (- r) t"
  proof (rule for_real_int_rule[where P = "\<lambda>k. force_inv N r gx gy ax ay s k (- r)"])
    show "force_inv N r gx gy ax ay s (- r) (- r) s" by (rule start)
    show "- r \<le> r + 1" using r by simp
    fix k t assume k: "- r \<le> k" "k \<le> r" and P: "force_inv N r gx gy ax ay s k (- r) t"
    have "\<exists>t'. for_real (real_of_int (- r)) (real_of_int r)
                 (\<lambda>j. addForce_cell N (real_of_int r) gx gy ax ay (real_of_int k) j) t = Some t'
              \<and> force_inv N r gx gy ax ay s k (r + 1) t'"
    proof (rule for_real_int_rule[where P = "\<lambda>l. force_inv N r gx gy ax ay s k l"])
      show "force_inv N r gx gy ax ay s k (- r) t" by (rule P)
      show "- r \<le> r + 1" using r by simp
      fix l t1 assume "- r \<le> l" "l \<le> r" "force_inv N r gx gy ax ay s k l t1"
      then show "\<exists>s'. addForce_cell N (real_of_int r) gx gy ax ay (real_of_int k) (real_of_int l) t1 = Some s'
              \<and> force_inv N r gx gy ax ay s k (l + 1) s'"
        using addForce_cell_inv[OF r c k] by blast
    qed
    then show "\<exists>s'. for_real (real_of_int (- r)) (real_of_int r)
                 (\<lambda>j. addForce_cell N (real_of_int r) gx gy ax ay (real_of_int k) j) t = Some s'
              \<and> force_inv N r gx gy ax ay s (k + 1) (- r) s'"
      using force_inv_row[of r N gx gy ax ay s k] r by simp
  qed
  then show ?thesis unfolding m .
qed

text \<open>
  With a force radius that is a whole number \<open>r \<ge> 1\<close> the loops visit the offset \<open>(0, 0)\<close>.
  Let \<open>(cx, cy)\<close> be the target cell clamped into the grid. Then \<open>addForce\<close> succeeds; every
  cell whose Euclidean distance from \<open>(cx, cy)\<close> exceeds \<open>r\<close> keeps its value in \<open>u\<close>, \<open>v\<close>
  and \<open>density\<close>; and the cell \<open>(cx, cy)\<close> receives \<open>fx * forceMultiplier * w\<close>,
  \<open>fy * forceMultiplier * w\<close> and \<open>100 * w\<close> for a weight \<open>w \<ge> 1\<close>, which is exactly \<open>1\<close> when
  that cell is not on the border of the grid.
\<close>

lemma addForce_whole_radius:
  assumes "1 \<le> r" and "forceRadius (params s) = real_of_int r" and "1 \<le> sizeN s"
    and "sized (sizeN s) (u s)" and "sized (sizeN s) (v s)" and "sized (sizeN s) (density s)"
    and "innerWidth \<noteq> 0" and "innerHeight \<noteq> 0"
    and "cx = clamp_index (sizeN s) \<lfloor>(x + innerWidth / 2) / innerWidth * real_of_int (sizeN s)\<rfloor>"
    and "cy = clamp_index (sizeN s) \<lfloor>(y + innerHeight / 2) / innerHeight * real_of_int (sizeN s)\<rfloor>"
  shows "\<exists>s'. addForce innerWidth innerHeight x y fx fy s = Some s' \<and>
     (\<forall>a b. 0 \<le> a \<and> a < sizeN s \<and> 0 \<le> b \<and> b < sizeN s \<and>
            real_of_int r < sqrt (real_of_int ((a - cx)\<^sup>2 + (b - cy)\<^sup>2)) \<longrightarrow>
         cell (sizeN s) (u s') a b = cell (sizeN s) (u s) a b \<and>
         cell (sizeN s) (v s') a b = cell (sizeN s) (v s) a b \<and>
         cell (sizeN s) (density s') a b = cell (sizeN s) (density s) a b) \<and>
     (\<exists>w\<ge>1.
         cell (sizeN s) (u s') cx cy = cell (sizeN s) (u s) cx cy + fx * forceMultiplier (params s) * w \<and>
         cell (sizeN s) (v s') cx cy = cell (sizeN s) (v s) cx cy + fy * forceMultiplier (params s) * w \<and>
         cell (sizeN s) (density s') cx cy = cell (sizeN s) (density s) cx cy + 100 * w \<and>
         (0 < cx \<and> cx < sizeN s - 1 \<and> 0 < cy \<and> cy < sizeN s - 1 \<longrightarrow> w = 1))"
proof -
  let ?N = "sizeN s" and ?ax = "fx * forceMultiplier (params s)" and ?ay = "fy * forceMultiplier (params s)"
  define gx where "gx = \<lfloor>(x + innerWidth / 2) / innerWidth * real_of_int ?N\<rfloor>"
  define gy where "gy = \<lfloor>(y + innerHeight / 2) / innerHeight * real_of_int ?N\<rfloor>"
  have cxy: "cx = clamp_index ?N gx" "cy = clamp_index ?N gy"
    using assms(9,10) by (simp_all add: gx_def gy_def)
  have c: "inb ?N cx cy" using assms(3) by (auto simp: cxy clamp_index_def inb_def)
  from addForce_loops[OF assms(1,3,4,5,6), of gx gy ?ax ?ay] obtain t where
    run: "for_real (- real_of_int r) (real_of_int r)
               (\<lambda>i. for_real (- real_of_int r) (real_of_int r)
                      (\<lambda>j. addForce_cell ?N (real_of_int r) gx gy ?ax ?ay i j)) s = Some t"
    and inv: "force_inv ?N r gx gy ?ax ?ay s (r + 1) (- r) t" by blast
  have call: "addForce innerWidth innerHeight x y fx fy s = Some t"
    using run assms(2,7,8) by (simp add: addForce_def fdiv_def Let_def gx_def gy_def)
  have seen: "seen_centre (r + 1) (- r)" using assms(1) by (simp add: seen_centre_def)
  have cells: "\<exists>w. deposited ?N ?ax ?ay s t a b w \<and> 0 \<le> w \<and>
        (r\<^sup>2 < (a - cx)\<^sup>2 + (b - cy)\<^sup>2 \<longrightarrow> w = 0) \<and>
        (a = cx \<and> b = cy \<longrightarrow> 1 \<le> w \<and>
           (0 < a \<and> a < ?N - 1 \<and> 0 < b \<and> b < ?N - 1 \<longrightarrow> w = 1))"
    if "inb ?N a b" for a b
    using inv that seen unfolding force_inv_def cxy by (simp only: if_True simp_thms)
  have far: "cell ?N (u t) a b = cell ?N (u s) a b \<and> cell ?N (v t) a b = cell ?N (v s) a b \<and>
         cell ?N (density t) a b = cell ?N (density s) a b"
    if "0 \<le> a \<and> a < ?N \<and> 0 \<le> b \<and> b < ?N \<and>
        real_of_int r < sqrt (real_of_int ((a - cx)\<^sup>2 + (b - cy)\<^sup>2))" for a b
  proof -
    have "(real_of_int r)\<^sup>2 < real_of_int ((a - cx)\<^sup>2 + (b - cy)\<^sup>2)"
      using that assms(1) less_sqrt_iff[of "real_of_int r"] by simp
    then have "real_of_int (r\<^sup>2) < real_of_int ((a - cx)\<^sup>2 + (b - cy)\<^sup>2)" by simp
    then have "r\<^sup>2 < (a - cx)\<^sup>2 + (b - cy)\<^sup>2" by (simp only: of_int_less_iff)
    moreover have "inb ?N a b" using that by (simp add: inb_def)
    ultimately show ?thesis using cells[of a b] by (auto simp: deposited_def)
  qed
  from cells[OF c] obtain w where w: "deposited ?N ?ax ?ay s t cx cy w" "1 \<le> w"
    "0 < cx \<and> cx < ?N - 1 \<and> 0 < cy \<and> cy < ?N - 1 \<longrightarrow> w = 1" by auto
  have centre: "\<exists>w\<ge>1.
         cell ?N (u t) cx cy = cell ?N (u s) cx cy + ?ax * w \<and>
         cell ?N (v t) cx cy = cell ?N (v s) cx cy + ?ay * w \<and>
         cell ?N (density t) cx cy = cell ?N (density s) cx cy + 100 * w \<and>
         (0 < cx \<and> cx < ?N - 1 \<and> 0 < cy \<and> cy < ?N - 1 \<longrightarrow> w = 1)"
    using w by (intro exI[of _ w]) (simp add: deposited_def)
  show ?thesis using call far centre by blast
qed

lemma addForce_whole_radius_example:
  "\<exists>s'. addForce 3 3 0 0 2 0 (brush 1) = Some s' \<and>
      cell 3 (u s') 1 1 = cell 3 zeros9 1 1 + 2 \<and>
      cell 3 (density s') 1 1 = cell 3 zeros9 1 1 + 100 \<and>
      cell 3 (density s') 0 0 = cell 3 zeros9 0 0"
proof -
  have "(1::real) < sqrt 2" by simp
  then show ?thesis
    using addForce_whole_radius[of 1 "brush 1" 3 3 1 0 1 0 2 0]
    by (fastforce simp: brush_def sized_def zeros9_def clamp_index_def)
qed

lemma addForce_whole_radius_clamped:
  "\<exists>s'. addForce 3 3 4 0 2 0 (brush 1) = Some s' \<and>
      cell 3 (density s') 0 1 = cell 3 zeros9 0 1 \<and>
      (\<exists>w\<ge>1. cell 3 (density s') 2 1 = cell 3 zeros9 2 1 + 100 * w)"
proof -
  have g: "\<lfloor>(4 + 3 / 2) / 3 * real_of_int 3\<rfloor> = (5::int)" "\<lfloor>(0 + 3 / 2) / 3 * real_of_int 3\<rfloor> = (1::int)"
    by simp_all
  have c: "clamp_index 3 5 = 2" "clamp_index 3 1 = 1" by (simp_all add: clamp_index_def)
  have s: "sized 3 (u (brush 1))" "sized 3 (v (brush 1))" "sized 3 (density (brush 1))"
    "forceRadius (params (brush 1)) = real_of_int 1" "sizeN (brush 1) = 3"
    by (simp_all add: brush_def sized_def zeros9_def)
  from addForce_whole_radius[of 1 "brush 1" 3 3 2 4 1 0 2 0] s g c
  obtain s' where r: "addForce 3 3 4 0 2 0 (brush 1) = Some s'"
    and far: "\<And>a b. 0 \<le> a \<and> a < 3 \<and> 0 \<le> b \<and> b < 3 \<and>
            real_of_int 1 < sqrt (real_of_int ((a - 2)\<^sup>2 + (b - 1)\<^sup>2)) \<Longrightarrow>
         cell 3 (density s') a b = cell 3 (density (brush 1)) a b"
    and w: "\<exists>w\<ge>1. cell 3 (density s') 2 1 = cell 3 (density (brush 1)) 2 1 + 100 * w"
    by (simp del: of_int_1) blast
  have "(1::real) < sqrt 4" by simp
  with far[of 0 1] have "cell 3 (density s') 0 1 = cell 3 (density (brush 1)) 0 1" by simp
  then show ?thesis using r w by (simp add: brush_def)
qed

text \<open>
  Claim C7 at a fractional radius. The loops count from \<open>-radius\<close> in steps of one, so with
  the radius \<open>6/5\<close> the offsets are \<open>-6/5\<close>, \<open>-1/5\<close> and \<open>4/5\<close> and none is \<open>0\<close>. On the
  \<open>3 \<times> 3\<close> grid with all fields zero and \<open>forceMultiplier = 1\<close>, \<open>addForce(0, 0, 1, 0)\<close> has
  the target cell \<open>(1, 1)\<close>. The cell \<open>(0, 0)\<close>, at distance \<open>sqrt 2 > 6/5\<close> from it, is
  changed, and the target cell receives less than \<open>1\<close> in \<open>u\<close> and less than \<open>100\<close> in
  \<open>density\<close>: no contribution has the influence \<open>1\<close>.
\<close>

theorem addForce_fractional_radius:
  "addForce 3 3 0 0 1 0 (brush (6 / 5)) = Some ((brush (6 / 5))\<lparr>u := smear_u, density := smear_density\<rparr>) \<and>
   \<lfloor>(0 + 3 / 2) / 3 * real_of_int 3\<rfloor> = 1 \<and>
   6 / 5 < sqrt (real_of_int ((0 - 1)\<^sup>2 + (0 - 1)\<^sup>2)) \<and>
   cell 3 smear_density 0 0 \<noteq> cell 3 (density (brush (6 / 5))) 0 0 \<and>
   cell 3 smear_u 0 0 \<noteq> cell 3 (u (brush (6 / 5))) 0 0 \<and>
   cell 3 smear_u 1 1 < cell 3 (u (brush (6 / 5))) 1 1 + 1 \<and>
   cell 3 smear_density 1 1 < cell 3 (density (brush (6 / 5))) 1 1 + 100"
proof -
  have a: "sqrt (2 / 25) < 6 / 5" by (rule real_less_lsqrt) (simp_all add: power2_eq_square)
  have b: "0 < sqrt (32 / 25)" by simp
  have c: "6 / 5 < sqrt 2" by (rule real_less_rsqrt) (simp add: power2_eq_square)
  have e: "\<lfloor>(3::real) / 2\<rfloor> = 1" by simp
  show ?thesis
    unfolding addForce_fractional
    using a b c e
    by (simp add: smear_u_def smear_density_def brush_def zeros9_def cell_def IX_def)
qed

end
